theory Spec2Isabelle
  imports Main "HOL-Library.AList"
begin

section \<open>Invoice field extraction (app.py, extract_invoice_data)\<close>

text \<open>
  The development embeds \<^verbatim>\<open>extract_invoice_data\<close> of \<^verbatim>\<open>app.py\<close>: the guard on the
  OCR result, the concatenation of the recognised lines, the table of regular expressions
  with the first-match loop, the company heuristic and the line-item heuristic.

  Python strings are sequences of code points. They are modelled as \<open>string\<close>, a
  \<open>char\<close> being read as a code point below 256 (Latin-1): on that range the Unicode
  classes used by \<^verbatim>\<open>re\<close> and \<^verbatim>\<open>str\<close> are the finite sets written out below. Text with code
  points from 256 on is outside the model.
\<close>

subsection \<open>Characters\<close>

text \<open>\<^verbatim>\<open>\d\<close> of a str pattern: the decimal digits; below 256 these are 0 to 9.\<close>

definition is_digit :: "char \<Rightarrow> bool" where
  "is_digit c = (c \<in> set ''0123456789'')"

text \<open>
  \<^verbatim>\<open>\s\<close>, \<^verbatim>\<open>str.strip()\<close> and \<^verbatim>\<open>str.split()\<close>: the code points for which
  \<^verbatim>\<open>str.isspace()\<close> holds; below 256 these are 9-13, 28-32, 133 and 160.
\<close>

definition is_space :: "char \<Rightarrow> bool" where
  "is_space c =
     (c \<in> set [CHR 0x09, CHR 0x0A, CHR 0x0B, CHR 0x0C, CHR 0x0D, CHR 0x1C, CHR 0x1D, CHR 0x1E,
                CHR 0x1F, CHR 0x20, CHR 0x85, CHR 0xA0])"

text \<open>
  Case folding below 256: the upper-case letters are 65-90 and 192-222 without 215, the
  lower-case letter of each is 32 higher (bit 5 set).
\<close>

definition is_upper :: "char \<Rightarrow> bool" where
  "is_upper c = (let n = of_char c :: nat in
     (65 \<le> n \<and> n \<le> 90) \<or> (192 \<le> n \<and> n \<le> 222 \<and> n \<noteq> 215))"

definition is_lower :: "char \<Rightarrow> bool" where
  "is_lower c = (let n = of_char c :: nat in
     (97 \<le> n \<and> n \<le> 122) \<or> (224 \<le> n \<and> n \<le> 254 \<and> n \<noteq> 247))"

definition lower :: "char \<Rightarrow> char" where
  "lower c = (if is_upper c
     then Char (digit0 c) (digit1 c) (digit2 c) (digit3 c) (digit4 c) True (digit6 c) (digit7 c)
     else c)"

definition upper :: "char \<Rightarrow> char" where
  "upper c = (if is_lower c
     then Char (digit0 c) (digit1 c) (digit2 c) (digit3 c) (digit4 c) False (digit6 c) (digit7 c)
     else c)"

subsection \<open>String methods\<close>

text \<open>\<^verbatim>\<open>s.strip()\<close>: leading and trailing whitespace removed.\<close>

definition strip :: "string \<Rightarrow> string" where
  "strip s = rev (dropWhile is_space (rev (dropWhile is_space s)))"

text \<open>
  \<^verbatim>\<open>s.split('\n')\<close>: the pieces between line feeds; never empty, the empty string
  gives one empty piece, a trailing line feed gives a last empty piece.
\<close>

fun split_nl :: "string \<Rightarrow> string list" where
  "split_nl [] = [[]]"
| "split_nl (c # cs) =
     (if c = CHR ''\<newline>'' then [] # split_nl cs
      else (case split_nl cs of l # ls \<Rightarrow> (c # l) # ls | [] \<Rightarrow> [[c]]))"

text \<open>
  \<^verbatim>\<open>s.split()\<close>: the maximal runs of non-whitespace characters. \<open>split_ws cur s\<close> reads
  \<open>s\<close> with the current token \<open>cur\<close> held in reverse.
\<close>

fun split_ws :: "string \<Rightarrow> string \<Rightarrow> string list" where
  "split_ws cur [] = (if cur = [] then [] else [rev cur])"
| "split_ws cur (c # cs) =
     (if is_space c then (if cur = [] then split_ws [] cs else rev cur # split_ws [] cs)
      else split_ws (c # cur) cs)"

definition split :: "string \<Rightarrow> string list" where
  "split s = split_ws [] s"

subsection \<open>Python values\<close>

text \<open>
  The OCR result is parsed JSON and the function returns a dict or a tuple, so values are
  dynamically typed. A dict keeps insertion order and is an association list with string
  keys: \<open>map_of\<close> reads it, \<open>AList.update\<close> assigns (in place for a present key, at the end
  for a new one). JSON numbers are modelled as integers.
\<close>

datatype pyval =
    PNone
  | PBool bool
  | PInt int
  | PStr string
  | PList "pyval list"
  | PTuple "pyval list"
  | PDict "(string \<times> pyval) list"

datatype error = KeyError | TypeError | AttributeError

text \<open>Truth value of an object, as \<^verbatim>\<open>not x\<close> and \<^verbatim>\<open>if x\<close> test it.\<close>

fun truthy :: "pyval \<Rightarrow> bool" where
  "truthy PNone = False"
| "truthy (PBool b) = b"
| "truthy (PInt i) = (i \<noteq> 0)"
| "truthy (PStr s) = (s \<noteq> [])"
| "truthy (PList xs) = (xs \<noteq> [])"
| "truthy (PTuple xs) = (xs \<noteq> [])"
| "truthy (PDict kvs) = (kvs \<noteq> [])"

text \<open>\<open>starts_with w s\<close>: \<open>w\<close> is a prefix of \<open>s\<close>; \<open>is_substring\<close>: \<^verbatim>\<open>w in s\<close> on strings.\<close>

fun starts_with :: "string \<Rightarrow> string \<Rightarrow> bool" where
  "starts_with [] s = True"
| "starts_with (p # ps) [] = False"
| "starts_with (p # ps) (c # cs) = (p = c \<and> starts_with ps cs)"

fun is_substring :: "string \<Rightarrow> string \<Rightarrow> bool" where
  "is_substring w [] = starts_with w []"
| "is_substring w (c # cs) = (starts_with w (c # cs) \<or> is_substring w cs)"

text \<open>
  \<^verbatim>\<open>k in x\<close> for a string \<open>k\<close>: a key of a dict, an element of a list or tuple, a
  substring of a string; TypeError on None, booleans and numbers.
\<close>

fun py_contains :: "string \<Rightarrow> pyval \<Rightarrow> error + bool" where
  "py_contains k (PDict kvs) = Inr (k \<in> set (map fst kvs))"
| "py_contains k (PList xs) = Inr (PStr k \<in> set xs)"
| "py_contains k (PTuple xs) = Inr (PStr k \<in> set xs)"
| "py_contains k (PStr s) = Inr (is_substring k s)"
| "py_contains k PNone = Inl TypeError"
| "py_contains k (PBool b) = Inl TypeError"
| "py_contains k (PInt i) = Inl TypeError"

text \<open>
  \<^verbatim>\<open>x[k]\<close> for a string \<open>k\<close>: the value of a dict, KeyError when the key is absent;
  TypeError on every other value (not subscriptable, or indices must be integers).
\<close>

fun py_getitem :: "pyval \<Rightarrow> string \<Rightarrow> error + pyval" where
  "py_getitem (PDict kvs) k = (case map_of kvs k of None \<Rightarrow> Inl KeyError | Some v \<Rightarrow> Inr v)"
| "py_getitem v k = Inl TypeError"

text \<open>
  The elements a \<^verbatim>\<open>for\<close> loop visits: those of a list or tuple, the keys of a dict, the
  one-character strings of a string; TypeError on None, booleans and numbers.
\<close>

fun py_iter :: "pyval \<Rightarrow> error + pyval list" where
  "py_iter (PList xs) = Inr xs"
| "py_iter (PTuple xs) = Inr xs"
| "py_iter (PDict kvs) = Inr (map (\<lambda>kv. PStr (fst kv)) kvs)"
| "py_iter (PStr s) = Inr (map (\<lambda>c. PStr [c]) s)"
| "py_iter v = Inl TypeError"

text \<open>\<^verbatim>\<open>x + "\n"\<close>: concatenation when \<open>x\<close> is a string, TypeError otherwise.\<close>

fun py_add_str :: "pyval \<Rightarrow> string \<Rightarrow> error + string" where
  "py_add_str (PStr a) b = Inr (a @ b)"
| "py_add_str v b = Inl TypeError"

subsection \<open>Regular expressions\<close>

text \<open>
  The fragment of \<^verbatim>\<open>re\<close> syntax the patterns use: literals, character classes with
  single characters, ranges, \<^verbatim>\<open>\d\<close> and \<^verbatim>\<open>\s\<close>, concatenation, alternation, greedy
  repetition \<^verbatim>\<open>{m,n}\<close> (\<open>Rep m (Some n)\<close>), \<^verbatim>\<open>*\<close> (\<open>Rep 0 None\<close>), \<^verbatim>\<open>+\<close>
  (\<open>Rep 1 None\<close>), \<^verbatim>\<open>?\<close> (\<open>Rep 0 (Some 1)\<close>), and one capturing group.
\<close>

datatype citem = CChar char | CRange char char | CDigit | CSpace

datatype regex =
    Lit string
  | Cls "citem list"
  | Seq regex regex
  | Alt regex regex
  | Rep nat "nat option" regex
  | Grp regex

definition in_range :: "char \<Rightarrow> char \<Rightarrow> char \<Rightarrow> bool" where
  "in_range a b c = ((of_char a :: nat) \<le> of_char c \<and> (of_char c :: nat) \<le> of_char b)"

definition char_eq :: "bool \<Rightarrow> char \<Rightarrow> char \<Rightarrow> bool" where
  "char_eq ic p c = (if ic then lower p = lower c else p = c)"

text \<open>
  With \<^verbatim>\<open>re.IGNORECASE\<close> (\<open>ic\<close>) a character equals a literal when both have the same
  lower-case letter, and is in a range when one of its case variants is. Whether a
  character is a digit or whitespace does not depend on its case: below 256 only letters
  have case variants.
\<close>

fun item_has :: "bool \<Rightarrow> citem \<Rightarrow> char \<Rightarrow> bool" where
  "item_has ic (CChar p) c = char_eq ic p c"
| "item_has ic (CRange a b) c =
     (in_range a b c \<or> (ic \<and> (in_range a b (lower c) \<or> in_range a b (upper c))))"
| "item_has ic CDigit c = is_digit c"
| "item_has ic CSpace c = is_space c"

definition in_class :: "bool \<Rightarrow> citem list \<Rightarrow> char \<Rightarrow> bool" where
  "in_class ic cs c = list_ex (\<lambda>i. item_has ic i c) cs"

fun lit_match :: "bool \<Rightarrow> string \<Rightarrow> string \<Rightarrow> bool" where
  "lit_match ic [] s = True"
| "lit_match ic (p # ps) [] = False"
| "lit_match ic (p # ps) (c # cs) = (char_eq ic p c \<and> lit_match ic ps cs)"

text \<open>
  A matcher state is the text still to be read and the text captured by group 1, if the
  group has been closed. \<open>ms ic r st\<close> lists the states in which \<open>r\<close> can end when started
  in \<open>st\<close>, in the order in which the backtracking matcher of \<^verbatim>\<open>re\<close> tries them: the left
  alternative before the right one, one more iteration of a greedy repetition before
  stopping. The head of the list is the match \<^verbatim>\<open>re\<close> reports. An iteration of a repetition
  has to consume a character; every repeated expression in the patterns below does.
\<close>

type_synonym mstate = "string \<times> string option"

fun rdepth :: "regex \<Rightarrow> nat" where
  "rdepth (Lit w) = 0"
| "rdepth (Cls cs) = 0"
| "rdepth (Seq a b) = Suc (rdepth a + rdepth b)"
| "rdepth (Alt a b) = Suc (rdepth a + rdepth b)"
| "rdepth (Rep m n r) = Suc (rdepth r)"
| "rdepth (Grp r) = Suc (rdepth r)"

function ms :: "bool \<Rightarrow> regex \<Rightarrow> mstate \<Rightarrow> mstate list" where
  "ms ic (Lit w) st =
     (if lit_match ic w (fst st) then [(drop (length w) (fst st), snd st)] else [])"
| "ms ic (Cls cs) st =
     (case fst st of [] \<Rightarrow> []
      | c # s' \<Rightarrow> if in_class ic cs c then [(s', snd st)] else [])"
| "ms ic (Seq a b) st = concat (map (ms ic b) (ms ic a st))"
| "ms ic (Alt a b) st = ms ic a st @ ms ic b st"
| "ms ic (Grp r) st =
     map (\<lambda>st'. (fst st', Some (take (length (fst st) - length (fst st')) (fst st))))
         (ms ic r st)"
| "ms ic (Rep m n r) st =
     (if n = Some 0 then []
      else concat (map (ms ic (Rep (m - 1) (map_option (\<lambda>k. k - 1) n) r))
                       (filter (\<lambda>st'. length (fst st') < length (fst st)) (ms ic r st))))
     @ (if m = 0 then [st] else [])"
  by pat_completeness auto
termination
  by (relation "measures [\<lambda>(ic, r, st). rdepth r, \<lambda>(ic, r, st). length (fst st)]") auto

text \<open>
  \<^verbatim>\<open>re.search\<close>: the match at the leftmost start position that has one, None when no
  position has. The start positions run up to and including the end of the text.
\<close>

fun re_search :: "regex \<Rightarrow> string \<Rightarrow> bool \<Rightarrow> mstate option" where
  "re_search r [] ic = (case ms ic r ([], None) of m # _ \<Rightarrow> Some m | [] \<Rightarrow> None)"
| "re_search r (c # cs) ic =
     (case ms ic r (c # cs, None) of m # _ \<Rightarrow> Some m | [] \<Rightarrow> re_search r cs ic)"

text \<open>\<^verbatim>\<open>match.group(1)\<close>: the text of group 1, None when the group took no part.\<close>

definition group1 :: "mstate \<Rightarrow> string option" where
  "group1 m = snd m"

subsection \<open>The pattern table\<close>

text \<open>
  Each pattern of the dict \<^verbatim>\<open>patterns\<close> (lines 124-148), in the order of the source.
  Shared pieces first: \<^verbatim>\<open>\d\<close>, \<^verbatim>\<open>[:\s#]*\<close>, \<^verbatim>\<open>[:\s]*\<close>, \<^verbatim>\<open>([A-Z0-9\-]+)\<close>,
  \<^verbatim>\<open>(\d{1,2}[\/\-]\d{1,2}[\/\-]\d{2,4})\<close>, \<^verbatim>\<open>(\d{1,3}(?:,\d{3})*\.?\d{0,2})\<close> and
  \<^verbatim>\<open>[S\/\$]?\s*\<close> followed by the latter.
\<close>

definition digit :: regex where
  "digit = Cls [CDigit]"

definition sep_hash :: regex where
  "sep_hash = Rep 0 None (Cls [CChar CHR '':'', CSpace, CChar CHR ''#''])"

definition sep :: regex where
  "sep = Rep 0 None (Cls [CChar CHR '':'', CSpace])"

definition code_group :: regex where
  "code_group =
     Grp (Rep 1 None
       (Cls [CRange CHR ''A'' CHR ''Z'', CRange CHR ''0'' CHR ''9'', CChar CHR ''-'']))"

definition date_group :: regex where
  "date_group =
     Grp (Seq (Rep 1 (Some 2) digit)
         (Seq (Cls [CChar CHR ''/'', CChar CHR ''-''])
         (Seq (Rep 1 (Some 2) digit)
         (Seq (Cls [CChar CHR ''/'', CChar CHR ''-''])
              (Rep 2 (Some 4) digit)))))"

definition amount_group :: regex where
  "amount_group =
     Grp (Seq (Rep 1 (Some 3) digit)
         (Seq (Rep 0 None (Seq (Lit '','') (Rep 3 (Some 3) digit)))
         (Seq (Rep 0 (Some 1) (Lit ''.''))
              (Rep 0 (Some 2) digit))))"

definition currency_amount :: regex where
  "currency_amount =
     Seq (Rep 0 (Some 1) (Cls [CChar CHR ''S'', CChar CHR ''/'', CChar CHR ''$'']))
    (Seq (Rep 0 None (Cls [CSpace]))
         amount_group)"

text \<open>
  \<^verbatim>\<open>(?:factura|invoice|n[Xu]mero?)[:\s#]*([A-Z0-9\-]+)\<close>, where X stands for the letter
  u with acute accent, code point 250.
\<close>

definition numero_factura_1 :: regex where
  "numero_factura_1 =
     Seq (Alt (Lit ''factura'')
         (Alt (Lit ''invoice'')
              (Seq (Lit ''n'')
              (Seq (Cls [CChar (CHR 0xFA), CChar CHR ''u''])
              (Seq (Lit ''mer'') (Rep 0 (Some 1) (Lit ''o'')))))))
    (Seq sep_hash code_group)"

text \<open>\<^verbatim>\<open>(?:fact|fac)[:\s#]*([A-Z0-9\-]+)\<close>\<close>

definition numero_factura_2 :: regex where
  "numero_factura_2 = Seq (Alt (Lit ''fact'') (Lit ''fac'')) (Seq sep_hash code_group)"

text \<open>\<^verbatim>\<open>(?:serie|no\.?)[:\s]*([A-Z0-9\-]+)\<close>\<close>

definition numero_factura_3 :: regex where
  "numero_factura_3 =
     Seq (Alt (Lit ''serie'') (Seq (Lit ''no'') (Rep 0 (Some 1) (Lit ''.''))))
    (Seq sep code_group)"

text \<open>\<^verbatim>\<open>(?:fecha|date)[:\s]*(\d{1,2}[\/\-]\d{1,2}[\/\-]\d{2,4})\<close>\<close>

definition fecha_1 :: regex where
  "fecha_1 = Seq (Alt (Lit ''fecha'') (Lit ''date'')) (Seq sep date_group)"

text \<open>\<^verbatim>\<open>(\d{1,2}[\/\-]\d{1,2}[\/\-]\d{2,4})\<close>\<close>

definition fecha_2 :: regex where
  "fecha_2 = date_group"

text \<open>\<^verbatim>\<open>(?:ruc|nit|tax\s*id)[:\s]*(\d{10,15})\<close>\<close>

definition ruc_nit_1 :: regex where
  "ruc_nit_1 =
     Seq (Alt (Lit ''ruc'')
         (Alt (Lit ''nit'')
              (Seq (Lit ''tax'') (Seq (Rep 0 None (Cls [CSpace])) (Lit ''id'')))))
    (Seq sep (Grp (Rep 10 (Some 15) digit)))"

text \<open>\<^verbatim>\<open>(\d{11})\<close>\<close>

definition ruc_nit_2 :: regex where
  "ruc_nit_2 = Grp (Rep 11 (Some 11) digit)"

text \<open>\<^verbatim>\<open>(?:total|amount)[:\s]*[S\/\$]?\s*(\d{1,3}(?:,\d{3})*\.?\d{0,2})\<close>\<close>

definition total_1 :: regex where
  "total_1 = Seq (Alt (Lit ''total'') (Lit ''amount'')) (Seq sep currency_amount)"

text \<open>\<^verbatim>\<open>(?:total\s*general|grand\s*total)[:\s]*[S\/\$]?\s*(\d{1,3}(?:,\d{3})*\.?\d{0,2})\<close>\<close>

definition total_2 :: regex where
  "total_2 =
     Seq (Alt (Seq (Lit ''total'') (Seq (Rep 0 None (Cls [CSpace])) (Lit ''general'')))
              (Seq (Lit ''grand'') (Seq (Rep 0 None (Cls [CSpace])) (Lit ''total''))))
    (Seq sep currency_amount)"

text \<open>\<^verbatim>\<open>(?:subtotal|sub\s*total)[:\s]*[S\/\$]?\s*(\d{1,3}(?:,\d{3})*\.?\d{0,2})\<close>\<close>

definition subtotal_1 :: regex where
  "subtotal_1 =
     Seq (Alt (Lit ''subtotal'')
              (Seq (Lit ''sub'') (Seq (Rep 0 None (Cls [CSpace])) (Lit ''total''))))
    (Seq sep currency_amount)"

text \<open>\<^verbatim>\<open>(?:igv|iva|tax)[:\s]*[S\/\$]?\s*(\d{1,3}(?:,\d{3})*\.?\d{0,2})\<close>\<close>

definition igv_iva_1 :: regex where
  "igv_iva_1 =
     Seq (Alt (Lit ''igv'') (Alt (Lit ''iva'') (Lit ''tax''))) (Seq sep currency_amount)"

definition patterns :: "(string \<times> regex list) list" where
  "patterns =
     [(''numero_factura'', [numero_factura_1, numero_factura_2, numero_factura_3]),
      (''fecha'', [fecha_1, fecha_2]),
      (''ruc_nit'', [ruc_nit_1, ruc_nit_2]),
      (''total'', [total_1, total_2]),
      (''subtotal'', [subtotal_1]),
      (''igv_iva'', [igv_iva_1])]"

text \<open>\<^verbatim>\<open>\d+[\.\,]\d{2}\<close> (line 167).\<close>

definition price :: regex where
  "price =
     Seq (Rep 1 None digit)
    (Seq (Cls [CChar CHR ''.'', CChar CHR '',''])
         (Rep 2 (Some 2) digit))"

subsection \<open>extract_invoice_data\<close>

text \<open>The dict \<^verbatim>\<open>invoice_data\<close> as it is created (lines 111-121).\<close>

definition invoice_data_init :: "(string \<times> pyval) list" where
  "invoice_data_init =
     [(''numero_factura'', PStr []),
      (''fecha'', PStr []),
      (''empresa'', PStr []),
      (''ruc_nit'', PStr []),
      (''cliente'', PStr []),
      (''total'', PStr []),
      (''subtotal'', PStr []),
      (''igv_iva'', PStr []),
      (''items'', PList [])]"

text \<open>
  Lines 106-108: the inner loop adds the text of each line and a line feed to
  \<open>full_text\<close>; the outer loop visits the pages. A missing key or a value of the wrong
  type raises and ends the call.
\<close>

fun lines_loop :: "pyval list \<Rightarrow> string \<Rightarrow> error + string" where
  "lines_loop [] full_text = Inr full_text"
| "lines_loop (line # rest) full_text =
     (case py_getitem line ''text'' of
        Inl e \<Rightarrow> Inl e
      | Inr t \<Rightarrow>
          (case py_add_str t ''\<newline>'' of
             Inl e \<Rightarrow> Inl e
           | Inr u \<Rightarrow> lines_loop rest (full_text @ u)))"

fun pages_loop :: "pyval list \<Rightarrow> string \<Rightarrow> error + string" where
  "pages_loop [] full_text = Inr full_text"
| "pages_loop (page # rest) full_text =
     (case py_getitem page ''lines'' of
        Inl e \<Rightarrow> Inl e
      | Inr ls \<Rightarrow>
          (case py_iter ls of
             Inl e \<Rightarrow> Inl e
           | Inr ls' \<Rightarrow>
               (case lines_loop ls' full_text of
                  Inl e \<Rightarrow> Inl e
                | Inr full_text' \<Rightarrow> pages_loop rest full_text')))"

text \<open>
  Lines 152-156, the loop over the patterns of one field: a pattern that matches while
  the field is still empty sets the field to the trimmed group 1 and ends the loop
  (\<^verbatim>\<open>break\<close>); otherwise the next pattern is tried. \<^verbatim>\<open>invoice_data[field]\<close> is read only
  when there is a match.
\<close>

fun pattern_loop ::
  "string \<Rightarrow> string \<Rightarrow> regex list \<Rightarrow> (string \<times> pyval) list \<Rightarrow> error + (string \<times> pyval) list"
where
  "pattern_loop full_text field [] invoice_data = Inr invoice_data"
| "pattern_loop full_text field (pattern # rest) invoice_data =
     (case re_search pattern full_text True of
        None \<Rightarrow> pattern_loop full_text field rest invoice_data
      | Some m \<Rightarrow>
          (case py_getitem (PDict invoice_data) field of
             Inl e \<Rightarrow> Inl e
           | Inr v \<Rightarrow>
               if truthy v then pattern_loop full_text field rest invoice_data
               else (case group1 m of
                       None \<Rightarrow> Inl AttributeError
                     | Some g \<Rightarrow> Inr (AList.update field (PStr (strip g)) invoice_data))))"

text \<open>Line 151, the loop over the fields of \<^verbatim>\<open>patterns\<close>, in insertion order.\<close>

fun field_loop ::
  "string \<Rightarrow> (string \<times> regex list) list \<Rightarrow> (string \<times> pyval) list \<Rightarrow> error + (string \<times> pyval) list"
where
  "field_loop full_text [] invoice_data = Inr invoice_data"
| "field_loop full_text ((field, field_patterns) # rest) invoice_data =
     (case pattern_loop full_text field field_patterns invoice_data of
        Inl e \<Rightarrow> Inl e
      | Inr invoice_data' \<Rightarrow> field_loop full_text rest invoice_data')"

text \<open>
  Lines 160-163: the first of the given lines whose trimmed text is longer than 5 and in
  which \<^verbatim>\<open>\d\<close> finds nothing becomes \<^verbatim>\<open>empresa\<close>, trimmed, and ends the loop.
\<close>

fun empresa_loop :: "string list \<Rightarrow> (string \<times> pyval) list \<Rightarrow> (string \<times> pyval) list" where
  "empresa_loop [] invoice_data = invoice_data"
| "empresa_loop (line # rest) invoice_data =
     (if length (strip line) > 5 \<and> re_search digit line False = None
      then AList.update ''empresa'' (PStr (strip line)) invoice_data
      else empresa_loop rest invoice_data)"

text \<open>
  \<^verbatim>\<open>invoice_data["items"].append(x)\<close>: KeyError without the key, AttributeError when
  the value is not a list.
\<close>

definition items_append ::
  "(string \<times> pyval) list \<Rightarrow> string \<Rightarrow> error + (string \<times> pyval) list"
where
  "items_append invoice_data x =
     (case py_getitem (PDict invoice_data) ''items'' of
        Inl e \<Rightarrow> Inl e
      | Inr (PList xs) \<Rightarrow> Inr (AList.update ''items'' (PList (xs @ [PStr x])) invoice_data)
      | Inr _ \<Rightarrow> Inl AttributeError)"

text \<open>
  Lines 166-168: every line in which \<^verbatim>\<open>\d+[\.\,]\d{2}\<close> finds a match and which splits
  into 3 or more tokens is appended, trimmed, to \<^verbatim>\<open>items\<close>.
\<close>

fun items_loop :: "string list \<Rightarrow> (string \<times> pyval) list \<Rightarrow> error + (string \<times> pyval) list" where
  "items_loop [] invoice_data = Inr invoice_data"
| "items_loop (line # rest) invoice_data =
     (if re_search price line False \<noteq> None \<and> length (split line) \<ge> 3
      then (case items_append invoice_data (strip line) of
              Inl e \<Rightarrow> Inl e
            | Inr invoice_data' \<Rightarrow> items_loop rest invoice_data')
      else items_loop rest invoice_data)"

text \<open>Lines 111-170: from the concatenated text to the returned pair.\<close>

definition extract_fields :: "string \<Rightarrow> error + pyval" where
  "extract_fields full_text =
     (case field_loop full_text patterns invoice_data_init of
        Inl e \<Rightarrow> Inl e
      | Inr invoice_data \<Rightarrow>
          (let lines = split_nl full_text;
               invoice_data' = empresa_loop (take 5 lines) invoice_data
           in case items_loop lines invoice_data' of
                Inl e \<Rightarrow> Inl e
              | Inr invoice_data'' \<Rightarrow> Inr (PTuple [PDict invoice_data'', PStr full_text])))"

text \<open>
  The whole function. Lines 101-102: a false OCR result, or one that does not contain
  \<^verbatim>\<open>"readResults"\<close>, gives the empty dict; \<^verbatim>\<open>or\<close> does not evaluate its right operand
  when the left one holds.
\<close>

definition extract_invoice_data :: "pyval \<Rightarrow> error + pyval" where
  "extract_invoice_data ocr_result =
     (if \<not> truthy ocr_result then Inr (PDict [])
      else case py_contains ''readResults'' ocr_result of
        Inl e \<Rightarrow> Inl e
      | Inr has \<Rightarrow>
          if \<not> has then Inr (PDict [])
          else (case py_getitem ocr_result ''readResults'' of
                  Inl e \<Rightarrow> Inl e
                | Inr pages \<Rightarrow>
                    (case py_iter pages of
                       Inl e \<Rightarrow> Inl e
                     | Inr pages' \<Rightarrow>
                         (case pages_loop pages' [] of
                            Inl e \<Rightarrow> Inl e
                          | Inr full_text \<Rightarrow> extract_fields full_text))))"

text \<open>
  Line 212 of \<^verbatim>\<open>display_invoice_data\<close>: the items shown are the first five, numbered
  from 1; the dict itself is not changed.
\<close>

definition displayed_items :: "pyval list \<Rightarrow> (nat \<times> pyval) list" where
  "displayed_items items = zip [1 ..< Suc (length (take 5 items))] (take 5 items)"

text \<open>
  An OCR result as the service sends it: \<open>ocr_of pages\<close> has one page for each list of
  line texts.
\<close>

definition ocr_line :: "string \<Rightarrow> pyval" where
  "ocr_line t = PDict [(''text'', PStr t)]"

definition ocr_page :: "string list \<Rightarrow> pyval" where
  "ocr_page ls = PDict [(''lines'', PList (map ocr_line ls))]"

definition ocr_of :: "string list list \<Rightarrow> pyval" where
  "ocr_of pages =
     PDict [(''status'', PStr ''succeeded''), (''readResults'', PList (map ocr_page pages))]"

subsection \<open>Notions used to state the properties\<close>

text \<open>
  \<open>captures r\<close>: group 1 is closed on every path through \<open>r\<close>, so a match of \<open>r\<close> has a
  text for group 1. All patterns of the table have this form.
\<close>

fun captures :: "regex \<Rightarrow> bool" where
  "captures (Grp r) = True"
| "captures (Seq a b) = captures b"
| "captures (Alt a b) = (captures a \<and> captures b)"
| "captures r = False"

text \<open>
  First match wins, as the specification words it: the match of the first pattern of an
  ordered list that matches anywhere in the text, and the trimmed group 1 of that match as
  the value of the field, empty when no pattern matches.
\<close>

fun first_match :: "regex list \<Rightarrow> string \<Rightarrow> mstate option" where
  "first_match [] full_text = None"
| "first_match (p # ps) full_text =
     (case re_search p full_text True of Some m \<Rightarrow> Some m | None \<Rightarrow> first_match ps full_text)"

definition first_match_value :: "regex list \<Rightarrow> string \<Rightarrow> string" where
  "first_match_value ps full_text =
     (case first_match ps full_text of
        None \<Rightarrow> []
      | Some m \<Rightarrow> (case group1 m of None \<Rightarrow> [] | Some g \<Rightarrow> strip g))"

text \<open>
  The company heuristic as the specification words it: the first line among the first 5
  whose trimmed length exceeds 5 and which contains no digit, trimmed; empty when there is
  none.
\<close>

definition company_line :: "string \<Rightarrow> bool" where
  "company_line line = (length (strip line) > 5 \<and> re_search digit line False = None)"

definition company_name :: "string list \<Rightarrow> string" where
  "company_name lines = (case find company_line (take 5 lines) of None \<Rightarrow> [] | Some l \<Rightarrow> strip l)"

text \<open>
  The test of the line-item heuristic: the line contains a match of
  \<^verbatim>\<open>\d+[\.\,]\d{2}\<close> and splits into 3 or more tokens.
\<close>

definition item_line :: "string \<Rightarrow> bool" where
  "item_line line = (re_search price line False \<noteq> None \<and> length (split line) \<ge> 3)"

text \<open>The dict that the specification describes for a text.\<close>

definition invoice_record :: "string \<Rightarrow> (string \<times> pyval) list" where
  "invoice_record full_text =
     [(''numero_factura'',
         PStr (first_match_value [numero_factura_1, numero_factura_2, numero_factura_3] full_text)),
      (''fecha'', PStr (first_match_value [fecha_1, fecha_2] full_text)),
      (''empresa'', PStr (company_name (split_nl full_text))),
      (''ruc_nit'', PStr (first_match_value [ruc_nit_1, ruc_nit_2] full_text)),
      (''cliente'', PStr []),
      (''total'', PStr (first_match_value [total_1, total_2] full_text)),
      (''subtotal'', PStr (first_match_value [subtotal_1] full_text)),
      (''igv_iva'', PStr (first_match_value [igv_iva_1] full_text)),
      (''items'', PList (map PStr (map strip (filter item_line (split_nl full_text)))))]"

text \<open>
  The words a regular expression matches, independently of the order in which the matcher
  tries them, and the words group 1 can hold after a match.
\<close>

fun lang :: "bool \<Rightarrow> regex \<Rightarrow> string set" where
  "lang ic (Lit v) = {w. length w = length v \<and> lit_match ic v w}"
| "lang ic (Cls cs) = {[c] | c. in_class ic cs c}"
| "lang ic (Seq a b) = {u @ v | u v. u \<in> lang ic a \<and> v \<in> lang ic b}"
| "lang ic (Alt a b) = lang ic a \<union> lang ic b"
| "lang ic (Rep m n r) =
     {concat ws | ws. set ws \<subseteq> lang ic r \<and> m \<le> length ws \<and>
        (case n of None \<Rightarrow> True | Some k \<Rightarrow> length ws \<le> k)}"
| "lang ic (Grp r) = lang ic r"

fun group_lang :: "bool \<Rightarrow> regex \<Rightarrow> string set" where
  "group_lang ic (Grp r) = lang ic r"
| "group_lang ic (Seq a b) = group_lang ic b"
| "group_lang ic (Alt a b) = group_lang ic a \<union> group_lang ic b"
| "group_lang ic r = {}"

text \<open>
  Reading the result of a call: the value of a key in the returned dict, when the call
  returned the pair of the dict and the text.
\<close>

fun invoice_field :: "string \<Rightarrow> error + pyval \<Rightarrow> pyval option" where
  "invoice_field k (Inr (PTuple [PDict d, t])) = map_of d k"
| "invoice_field k r = None"

text \<open>
  A well-formed record: exactly the nine keys in the order of creation, a string for each
  of the eight scalar fields, a list of strings for \<^verbatim>\<open>items\<close>.
\<close>

fun is_str :: "pyval \<Rightarrow> bool" where
  "is_str (PStr s) = True"
| "is_str v = False"

fun is_str_list :: "pyval \<Rightarrow> bool" where
  "is_str_list (PList xs) = list_all is_str xs"
| "is_str_list v = False"

definition scalar_fields :: "string list" where
  "scalar_fields =
     [''numero_factura'', ''fecha'', ''empresa'', ''ruc_nit'', ''cliente'', ''total'',
      ''subtotal'', ''igv_iva'']"

definition well_formed_record :: "(string \<times> pyval) list \<Rightarrow> bool" where
  "well_formed_record d =
     (map fst d = scalar_fields @ [''items''] \<and>
      list_all (\<lambda>k. case map_of d k of Some v \<Rightarrow> is_str v | None \<Rightarrow> False) scalar_fields \<and>
      (case map_of d ''items'' of Some v \<Rightarrow> is_str_list v | None \<Rightarrow> False))"

fun returns_record :: "error + pyval \<Rightarrow> bool" where
  "returns_record (Inr (PTuple [PDict d, PStr t])) = well_formed_record d"
| "returns_record r = False"

text \<open>
  A well-formed OCR result: a dict whose \<^verbatim>\<open>readResults\<close> is a list of pages, each a dict
  whose \<^verbatim>\<open>lines\<close> is a list of dicts with a string under \<^verbatim>\<open>text\<close>. \<open>ocr_lines\<close> are the
  texts of its lines in reading order, \<open>join_lines\<close> ends each with a line feed.
\<close>

fun wf_line :: "pyval \<Rightarrow> bool" where
  "wf_line (PDict kvs) = (case map_of kvs ''text'' of Some (PStr t) \<Rightarrow> True | _ \<Rightarrow> False)"
| "wf_line v = False"

fun line_text :: "pyval \<Rightarrow> string" where
  "line_text (PDict kvs) = (case map_of kvs ''text'' of Some (PStr t) \<Rightarrow> t | _ \<Rightarrow> [])"
| "line_text v = []"

fun wf_page :: "pyval \<Rightarrow> bool" where
  "wf_page (PDict kvs) =
     (case map_of kvs ''lines'' of Some (PList ls) \<Rightarrow> list_all wf_line ls | _ \<Rightarrow> False)"
| "wf_page v = False"

fun page_lines :: "pyval \<Rightarrow> string list" where
  "page_lines (PDict kvs) =
     (case map_of kvs ''lines'' of Some (PList ls) \<Rightarrow> map line_text ls | _ \<Rightarrow> [])"
| "page_lines v = []"

fun wf_ocr :: "pyval \<Rightarrow> bool" where
  "wf_ocr (PDict kvs) =
     (case map_of kvs ''readResults'' of Some (PList ps) \<Rightarrow> list_all wf_page ps | _ \<Rightarrow> False)"
| "wf_ocr v = False"

fun ocr_lines :: "pyval \<Rightarrow> string list" where
  "ocr_lines (PDict kvs) =
     (case map_of kvs ''readResults'' of
        Some (PList ps) \<Rightarrow> concat (map page_lines ps) | _ \<Rightarrow> [])"
| "ocr_lines v = []"

definition join_lines :: "string list \<Rightarrow> string" where
  "join_lines ls = concat (map (\<lambda>l. l @ ''\<newline>'') ls)"

text \<open>
  The label expression of the first tax id pattern, \<^verbatim>\<open>(?:ruc|nit|tax\s*id)\<close>, and texts that
  start with \<open>n\<close> digits.
\<close>

definition ruc_nit_label :: regex where
  "ruc_nit_label =
     Alt (Lit ''ruc'')
    (Alt (Lit ''nit'')
         (Seq (Lit ''tax'') (Seq (Rep 0 None (Cls [CSpace])) (Lit ''id''))))"

definition digits_at :: "nat \<Rightarrow> string \<Rightarrow> bool" where
  "digits_at n s = (n \<le> length s \<and> list_all is_digit (take n s))"

section \<open>Properties\<close>

subsection \<open>The matcher and the loops\<close>

text \<open>
  The equation of the repetition calls \<open>ms\<close> on the same expression again, so it is not
  a default simplification rule.
\<close>

lemmas ms_Rep = ms.simps(6)

declare ms.simps(6) [simp del]

lemma ms_captures: "captures r \<Longrightarrow> x \<in> set (ms ic r st) \<Longrightarrow> snd x \<noteq> None"
proof (induction r arbitrary: st x)
  case (Seq a b)
  from Seq.prems obtain st' where "x \<in> set (ms ic b st')" by auto
  with Seq.IH(2) Seq.prems(1) show ?case by simp
next
  case (Alt a b)
  from Alt.prems have "x \<in> set (ms ic a st) \<or> x \<in> set (ms ic b st)" by simp
  moreover from Alt.prems(1) have ca: "captures a" and cb: "captures b" by simp_all
  ultimately show ?case using Alt.IH(1) [OF ca] Alt.IH(2) [OF cb] by blast
next
  case (Grp r)
  then show ?case by auto
qed simp_all

lemma re_search_in_ms:
  "re_search r s ic = Some m \<Longrightarrow> \<exists>s'. m \<in> set (ms ic r (s', None))"
proof (induction s)
  case Nil
  then have "m \<in> set (ms ic r ([], None))" by (auto split: list.splits)
  then show ?case ..
next
  case (Cons c cs)
  show ?case
  proof (cases "ms ic r (c # cs, None)")
    case Nil
    with Cons show ?thesis by simp
  next
    case (Cons m' ms')
    with Cons.prems have "m \<in> set (ms ic r (c # cs, None))" by simp
    then show ?thesis ..
  qed
qed

lemma re_search_group1:
  "captures r \<Longrightarrow> re_search r s ic = Some m \<Longrightarrow> \<exists>g. group1 m = Some g"
proof -
  assume c: "captures r" and s: "re_search r s ic = Some m"
  from re_search_in_ms [OF s] obtain s' where "m \<in> set (ms ic r (s', None))" ..
  from ms_captures [OF c this] show ?thesis by (simp add: group1_def)
qed

lemma pattern_loop_value:
  "list_all captures ps \<Longrightarrow> map_of d f = Some (PStr []) \<Longrightarrow>
   pattern_loop t f ps d = Inr (AList.update f (PStr (first_match_value ps t)) d)"
proof (induction ps)
  case Nil
  then show ?case by (simp add: first_match_value_def update_triv)
next
  case (Cons p ps)
  show ?case
  proof (cases "re_search p t True")
    case None
    with Cons show ?thesis by (simp add: first_match_value_def)
  next
    case (Some m)
    from Cons.prems have "captures p" by simp
    from re_search_group1 [OF this Some] obtain g where "group1 m = Some g" ..
    with Some Cons.prems show ?thesis by (simp add: first_match_value_def)
  qed
qed

lemma pattern_loop_keep:
  "map_of d f = Some (PStr v) \<Longrightarrow> v \<noteq> [] \<Longrightarrow> pattern_loop t f ps d = Inr d"
  by (induction ps) (auto split: option.splits)

lemma empresa_loop_find:
  "empresa_loop ls d =
     (case find company_line ls of None \<Rightarrow> d | Some l \<Rightarrow> AList.update ''empresa'' (PStr (strip l)) d)"
  by (induction ls) (auto simp: company_line_def)

lemma items_loop_Cons:
  "items_loop (l # ls) d =
     (if item_line l
      then (case items_append d (strip l) of Inl e \<Rightarrow> Inl e | Inr d' \<Rightarrow> items_loop ls d')
      else items_loop ls d)"
  by (simp add: item_line_def)

lemma items_loop_filter:
  "map_of d ''items'' = Some (PList xs) \<Longrightarrow>
   items_loop ls d =
     Inr (AList.update ''items'' (PList (xs @ map PStr (map strip (filter item_line ls)))) d)"
proof (induction ls arbitrary: d xs)
  case Nil
  then show ?case by (simp add: update_triv)
next
  case (Cons l ls)
  show ?case
  proof (cases "item_line l")
    case True
    let ?d = "AList.update ''items'' (PList (xs @ [PStr (strip l)])) d"
    have ap: "items_append d (strip l) = Inr ?d"
      using Cons.prems by (simp add: items_append_def)
    have "map_of ?d ''items'' = Some (PList (xs @ [PStr (strip l)]))"
      by (simp add: update_conv')
    from Cons.IH [OF this]
    have "items_loop ls ?d =
            Inr (AList.update ''items''
              (PList (xs @ PStr (strip l) # map PStr (map strip (filter item_line ls)))) d)"
      by simp
    with True ap show ?thesis
      by (simp only: items_loop_Cons if_True sum.case filter.simps list.map)
  next
    case False
    with Cons show ?thesis by (simp only: items_loop_Cons if_False filter.simps)
  qed
qed

lemma captures_patterns:
  "captures numero_factura_1" "captures numero_factura_2" "captures numero_factura_3"
  "captures fecha_1" "captures fecha_2" "captures ruc_nit_1" "captures ruc_nit_2"
  "captures total_1" "captures total_2" "captures subtotal_1" "captures igv_iva_1"
  by (simp_all add: numero_factura_1_def numero_factura_2_def numero_factura_3_def
      fecha_1_def fecha_2_def ruc_nit_1_def ruc_nit_2_def total_1_def total_2_def
      subtotal_1_def igv_iva_1_def code_group_def date_group_def currency_amount_def
      amount_group_def)

lemma field_loop_patterns:
  "field_loop t patterns invoice_data_init =
     Inr [(''numero_factura'',
         PStr (first_match_value [numero_factura_1, numero_factura_2, numero_factura_3] t)),
      (''fecha'', PStr (first_match_value [fecha_1, fecha_2] t)),
      (''empresa'', PStr []),
      (''ruc_nit'', PStr (first_match_value [ruc_nit_1, ruc_nit_2] t)),
      (''cliente'', PStr []),
      (''total'', PStr (first_match_value [total_1, total_2] t)),
      (''subtotal'', PStr (first_match_value [subtotal_1] t)),
      (''igv_iva'', PStr (first_match_value [igv_iva_1] t)),
      (''items'', PList [])]"
  by (simp add: patterns_def invoice_data_init_def pattern_loop_value captures_patterns
      del: pattern_loop.simps)

lemma extract_fields_record:
  "extract_fields t = Inr (PTuple [PDict (invoice_record t), PStr t])"
  by (simp add: extract_fields_def field_loop_patterns empresa_loop_find items_loop_filter
      invoice_record_def company_name_def split: option.splits)

lemma lit_match_take:
  "lit_match ic v s \<Longrightarrow> length v \<le> length s \<and> lit_match ic v (take (length v) s)"
  by (induction ic v s rule: lit_match.induct) auto

lemma ms_lang:
  "x \<in> set (ms ic r st) \<Longrightarrow> \<exists>w \<in> lang ic r. fst st = w @ fst x"
proof (induction ic r st arbitrary: x rule: ms.induct)
  case (1 ic w st)
  then have m: "lit_match ic w (fst st)" and x: "x = (drop (length w) (fst st), snd st)"
    by (auto split: if_splits)
  from lit_match_take [OF m] have "take (length w) (fst st) \<in> lang ic (Lit w)"
    by simp
  moreover from x have "fst st = take (length w) (fst st) @ fst x" by simp
  ultimately show ?case by blast
next
  case (2 ic cs st)
  then show ?case by (auto split: list.splits if_splits)
next
  case (3 ic a b st)
  from "3.prems" obtain st' where a: "st' \<in> set (ms ic a st)" and b: "x \<in> set (ms ic b st')"
    by auto
  from "3.IH"(1) [OF a] obtain u where u: "u \<in> lang ic a" "fst st = u @ fst st'" by blast
  from "3.IH"(2) [OF a b] obtain v where v: "v \<in> lang ic b" "fst st' = v @ fst x" by blast
  from u v have "u @ v \<in> lang ic (Seq a b)" "fst st = (u @ v) @ fst x" by auto
  then show ?case by blast
next
  case (4 ic a b st)
  from "4.prems" have "x \<in> set (ms ic a st) \<or> x \<in> set (ms ic b st)" by simp
  then show ?case
  proof
    assume "x \<in> set (ms ic a st)"
    from "4.IH"(1) [OF this] obtain w where w: "w \<in> lang ic a" "fst st = w @ fst x" by blast
    then have "w \<in> lang ic (Alt a b)" by simp
    with w(2) show ?thesis by blast
  next
    assume "x \<in> set (ms ic b st)"
    from "4.IH"(2) [OF this] obtain w where w: "w \<in> lang ic b" "fst st = w @ fst x" by blast
    then have "w \<in> lang ic (Alt a b)" by simp
    with w(2) show ?thesis by blast
  qed
next
  case (5 ic r st)
  from "5.prems" obtain x' where x': "x' \<in> set (ms ic r st)" and "fst x = fst x'" by auto
  with "5.IH" [OF x'] show ?case by auto
next
  case (6 ic m n r st)
  show ?case
  proof (cases "m = 0 \<and> x = st")
    case True
    have "concat [] \<in> lang ic (Rep m n r)"
      using True by (simp split: option.splits) (rule exI [of _ "[]"], simp)
    then show ?thesis using True by auto
  next
    case False
    from "6.prems" have
      "x \<in> set ((if n = Some 0 then []
           else concat (map (ms ic (Rep (m - 1) (map_option (\<lambda>k. k - 1) n) r))
                  (filter (\<lambda>st'. length (fst st') < length (fst st)) (ms ic r st))))
         @ (if m = 0 then [st] else []))"
      by (simp only: ms_Rep)
    with False have n0: "n \<noteq> Some 0"
      and "\<exists>st'. st' \<in> set (filter (\<lambda>st'. length (fst st') < length (fst st)) (ms ic r st)) \<and>
             x \<in> set (ms ic (Rep (m - 1) (map_option (\<lambda>k. k - 1) n) r) st')"
      by (auto split: if_splits)
    then obtain st' where f: "st' \<in> set (filter (\<lambda>st'. length (fst st') < length (fst st)) (ms ic r st))"
      and x: "x \<in> set (ms ic (Rep (m - 1) (map_option (\<lambda>k. k - 1) n) r) st')" by blast
    from f have a: "st' \<in> set (ms ic r st)" by simp
    from "6.IH"(1) [OF n0 a] obtain u where u: "u \<in> lang ic r" "fst st = u @ fst st'" by blast
    from "6.IH"(2) [OF n0 f x] obtain ws where ws: "set ws \<subseteq> lang ic r" "m - 1 \<le> length ws"
      "case map_option (\<lambda>k. k - 1) n of None \<Rightarrow> True | Some k \<Rightarrow> length ws \<le> k"
      "fst st' = concat ws @ fst x" by auto
    from u ws n0 have "set (u # ws) \<subseteq> lang ic r" "m \<le> length (u # ws)"
      "case n of None \<Rightarrow> True | Some k \<Rightarrow> length (u # ws) \<le> k"
      "fst st = concat (u # ws) @ fst x"
      by (auto split: option.splits)
    then have "concat (u # ws) \<in> lang ic (Rep m n r)" by (simp only: lang.simps) blast
    with \<open>fst st = concat (u # ws) @ fst x\<close> show ?thesis by blast
  qed
qed

lemma ms_group_lang:
  "captures r \<Longrightarrow> x \<in> set (ms ic r st) \<Longrightarrow> \<exists>g \<in> group_lang ic r. snd x = Some g"
proof (induction r arbitrary: st x)
  case (Seq a b)
  from Seq.prems obtain st' where "x \<in> set (ms ic b st')" by auto
  with Seq.IH(2) Seq.prems(1) show ?case by simp
next
  case (Alt a b)
  from Alt.prems(1) have ca: "captures a" and cb: "captures b" by simp_all
  from Alt.prems have "x \<in> set (ms ic a st) \<or> x \<in> set (ms ic b st)" by simp
  then show ?case
  proof
    assume "x \<in> set (ms ic a st)"
    from Alt.IH(1) [OF ca this] obtain g where g: "g \<in> group_lang ic a" "snd x = Some g"
      by blast
    then have "g \<in> group_lang ic (Alt a b)" by simp
    with g(2) show ?thesis by blast
  next
    assume "x \<in> set (ms ic b st)"
    from Alt.IH(2) [OF cb this] obtain g where g: "g \<in> group_lang ic b" "snd x = Some g"
      by blast
    then have "g \<in> group_lang ic (Alt a b)" by simp
    with g(2) show ?thesis by blast
  qed
next
  case (Grp r)
  from Grp.prems obtain x' where x': "x' \<in> set (ms ic r st)"
    and s: "snd x = Some (take (length (fst st) - length (fst x')) (fst st))" by auto
  from ms_lang [OF x'] obtain w where "w \<in> lang ic r" "fst st = w @ fst x'" by blast
  with s show ?case by auto
qed simp_all

lemma re_search_group_lang:
  assumes "captures r" and "re_search r s ic = Some m"
  shows "\<exists>g \<in> group_lang ic r. group1 m = Some g"
proof -
  from re_search_in_ms [OF assms(2)] obtain s' where "m \<in> set (ms ic r (s', None))" ..
  from ms_group_lang [OF assms(1) this] show ?thesis by (simp add: group1_def)
qed

lemma lang_rep_cls:
  assumes "w \<in> lang ic (Rep m n (Cls cs))"
  shows "(\<forall>c \<in> set w. in_class ic cs c) \<and> m \<le> length w \<and>
         (case n of None \<Rightarrow> True | Some k \<Rightarrow> length w \<le> k)"
proof -
  from assms obtain ws where ws: "w = concat ws" "set ws \<subseteq> lang ic (Cls cs)" "m \<le> length ws"
    "case n of None \<Rightarrow> True | Some k \<Rightarrow> length ws \<le> k" by auto
  have "set ws \<subseteq> lang ic (Cls cs) \<Longrightarrow>
        length (concat ws) = length ws \<and> (\<forall>c \<in> set (concat ws). in_class ic cs c)"
    by (induction ws) auto
  with ws(1,2) have l: "length w = length ws" and c: "\<forall>c \<in> set w. in_class ic cs c"
    by simp_all
  from ws(4) have "case n of None \<Rightarrow> True | Some k \<Rightarrow> length w \<le> k"
    unfolding l .
  with l c ws(3) show ?thesis by simp
qed

lemma strip_id:
  assumes "\<forall>c \<in> set w. \<not> is_space c"
  shows "strip w = w"
proof -
  have d: "\<And>v. \<forall>c \<in> set v. \<not> is_space c \<Longrightarrow> dropWhile is_space v = v"
    by (case_tac v) auto
  from assms show ?thesis by (simp add: strip_def d)
qed

lemma join_lines_simps [simp]:
  "join_lines [] = []"
  "join_lines (l # ls) = l @ CHR ''\<newline>'' # join_lines ls"
  "join_lines (ls @ ls') = join_lines ls @ join_lines ls'"
  by (simp_all add: join_lines_def)

lemma wf_line_getitem:
  "wf_line l \<Longrightarrow> py_getitem l ''text'' = Inr (PStr (line_text l))"
  by (cases l) (auto split: option.splits pyval.splits)

lemma lines_loop_wf:
  "list_all wf_line ls \<Longrightarrow> lines_loop ls ft = Inr (ft @ join_lines (map line_text ls))"
  by (induction ls arbitrary: ft) (simp_all add: wf_line_getitem)

lemma wf_page_getitem:
  "wf_page p \<Longrightarrow> \<exists>ls. py_getitem p ''lines'' = Inr (PList ls) \<and> list_all wf_line ls \<and>
      page_lines p = map line_text ls"
  by (cases p) (auto split: option.splits pyval.splits)

lemma pages_loop_wf:
  "list_all wf_page ps \<Longrightarrow>
   pages_loop ps ft = Inr (ft @ join_lines (concat (map page_lines ps)))"
proof (induction ps arbitrary: ft)
  case Nil
  then show ?case by simp
next
  case (Cons p ps)
  from Cons.prems have "wf_page p" and ps: "list_all wf_page ps" by simp_all
  from wf_page_getitem [OF this(1)] obtain ls where
    ls: "py_getitem p ''lines'' = Inr (PList ls)" "list_all wf_line ls"
        "page_lines p = map line_text ls" by blast
  show ?case
    by (simp add: ls lines_loop_wf Cons.IH [OF ps])
qed

lemma wf_ocr_extract:
  assumes "wf_ocr ocr_result"
  shows "extract_invoice_data ocr_result = extract_fields (join_lines (ocr_lines ocr_result))"
proof -
  from assms obtain kvs ps where o: "ocr_result = PDict kvs"
    and r: "map_of kvs ''readResults'' = Some (PList ps)" and ps: "list_all wf_page ps"
    by (cases ocr_result) (auto split: option.splits pyval.splits)
  from r have "kvs \<noteq> []" by auto
  moreover from r have "''readResults'' \<in> fst ` set kvs"
    by (metis domI dom_map_of_conv_image_fst)
  ultimately show ?thesis
    using o r by (simp add: extract_invoice_data_def pages_loop_wf [OF ps])
qed

lemma wf_ocr_of: "wf_ocr (ocr_of pages)"
  by (simp add: ocr_of_def ocr_page_def ocr_line_def list_all_iff)

lemma ocr_lines_ocr_of: "ocr_lines (ocr_of pages) = concat pages"
proof -
  have "\<And>p. map line_text (map ocr_line p) = p"
    by (induct_tac p) (simp_all add: ocr_line_def)
  then have "map page_lines (map ocr_page pages) = pages"
    by (induction pages) (simp_all add: ocr_page_def)
  then show ?thesis by (simp add: ocr_of_def)
qed

lemma extract_ocr_of:
  "extract_invoice_data (ocr_of pages) = extract_fields (join_lines (concat pages))"
  by (simp add: wf_ocr_extract wf_ocr_of ocr_lines_ocr_of)

lemma extract_guard:
  "\<not> truthy ocr_result \<or> py_contains ''readResults'' ocr_result = Inr False \<Longrightarrow>
   extract_invoice_data ocr_result = Inr (PDict [])"
  by (auto simp: extract_invoice_data_def)

lemma extract_cases:
  "extract_invoice_data ocr_result = Inr v \<Longrightarrow>
   v = PDict [] \<or> (\<exists>t. v = PTuple [PDict (invoice_record t), PStr t])"
  by (auto simp: extract_invoice_data_def extract_fields_record split: if_splits sum.splits)

lemma well_formed_invoice_record: "well_formed_record (invoice_record t)"
  by (simp add: well_formed_record_def invoice_record_def scalar_fields_def list_all_iff)

lemma split_nl_line:
  "CHR ''\<newline>'' \<notin> set l \<Longrightarrow> split_nl (l @ CHR ''\<newline>'' # rest) = l # split_nl rest"
  by (induction l) auto

lemma split_nl_join:
  "\<forall>l \<in> set ls. CHR ''\<newline>'' \<notin> set l \<Longrightarrow> split_nl (join_lines ls @ rest) = ls @ split_nl rest"
  by (induction ls) (simp_all add: split_nl_line)

subsection \<open>Claims about the whole call\<close>

lemma extract_fields_empty:
  "extract_fields [] =
     Inr (PTuple
       [PDict [(''numero_factura'', PStr []), (''fecha'', PStr []), (''empresa'', PStr []),
               (''ruc_nit'', PStr []), (''cliente'', PStr []), (''total'', PStr []),
               (''subtotal'', PStr []), (''igv_iva'', PStr []), (''items'', PList [])],
        PStr []])"
  by code_simp

text \<open>
  Claim C7. When the OCR result is well formed and has no lines at all (no pages, or pages
  without lines), the concatenated text is empty, the call returns without error, and the
  returned dict has the empty string in every scalar field and the empty list in
  \<^verbatim>\<open>items\<close>.
\<close>

theorem empty_input_gives_empty_record:
  assumes "wf_ocr ocr_result" and "ocr_lines ocr_result = []"
  shows "extract_invoice_data ocr_result =
     Inr (PTuple
       [PDict [(''numero_factura'', PStr []), (''fecha'', PStr []), (''empresa'', PStr []),
               (''ruc_nit'', PStr []), (''cliente'', PStr []), (''total'', PStr []),
               (''subtotal'', PStr []), (''igv_iva'', PStr []), (''items'', PList [])],
        PStr []])"
  using assms by (simp add: wf_ocr_extract extract_fields_empty)

text \<open>The hypotheses of C7 hold for a result with two pages that have no lines.\<close>

theorem empty_input_gives_empty_record_witness:
  "wf_ocr (ocr_of [[], []]) \<and> ocr_lines (ocr_of [[], []]) = [] \<and>
   extract_invoice_data (ocr_of [[], []]) =
     Inr (PTuple
       [PDict [(''numero_factura'', PStr []), (''fecha'', PStr []), (''empresa'', PStr []),
               (''ruc_nit'', PStr []), (''cliente'', PStr []), (''total'', PStr []),
               (''subtotal'', PStr []), (''igv_iva'', PStr []), (''items'', PList [])],
        PStr []])"
proof -
  have w: "wf_ocr (ocr_of [[], []])" by (rule wf_ocr_of)
  have l: "ocr_lines (ocr_of [[], []]) = []" by (simp add: ocr_lines_ocr_of)
  from w l empty_input_gives_empty_record [OF w l] show ?thesis by simp
qed

text \<open>
  Claim C8. For every OCR result, whenever the call returns the pair of the dict and the
  text, the \<^verbatim>\<open>cliente\<close> field of the dict is the empty string: no rule populates it.
\<close>

theorem cliente_never_populated:
  assumes "extract_invoice_data ocr_result = Inr (PTuple [PDict invoice_data, full_text])"
  shows "map_of invoice_data ''cliente'' = Some (PStr [])"
proof -
  from extract_cases [OF assms] obtain t where "invoice_data = invoice_record t" by auto
  then show ?thesis by (simp add: invoice_record_def)
qed

text \<open>A text that names a customer, and what the call returns for it.\<close>

lemma cliente_sample:
  "extract_invoice_data (ocr_of [[''Cliente: Ana'']]) =
     Inr (PTuple
       [PDict [(''numero_factura'', PStr []), (''fecha'', PStr []), (''empresa'', PStr ''Cliente: Ana''),
               (''ruc_nit'', PStr []), (''cliente'', PStr []), (''total'', PStr []),
               (''subtotal'', PStr []), (''igv_iva'', PStr []), (''items'', PList [])],
        PStr ''Cliente: Ana\<newline>''])"
  by code_simp

text \<open>The hypothesis of C8 at that text.\<close>

theorem cliente_never_populated_witness:
  "extract_invoice_data (ocr_of [[''Cliente: Ana'']]) =
     Inr (PTuple
       [PDict [(''numero_factura'', PStr []), (''fecha'', PStr []), (''empresa'', PStr ''Cliente: Ana''),
               (''ruc_nit'', PStr []), (''cliente'', PStr []), (''total'', PStr []),
               (''subtotal'', PStr []), (''igv_iva'', PStr []), (''items'', PList [])],
        PStr ''Cliente: Ana\<newline>'']) \<and>
   map_of [(''numero_factura'', PStr []), (''fecha'', PStr []), (''empresa'', PStr ''Cliente: Ana''),
               (''ruc_nit'', PStr []), (''cliente'', PStr []), (''total'', PStr []),
               (''subtotal'', PStr []), (''igv_iva'', PStr []), (''items'', PList [])] ''cliente'' = Some (PStr [])"
  using cliente_sample cliente_never_populated [OF cliente_sample] by simp

text \<open>
  Claim C2 as stated fails: for a non-empty OCR result without \<^verbatim>\<open>readResults\<close> (the
  service reported a failure) the guard of lines 101-102 returns the empty dict, which has
  none of the fields, and for a page without \<^verbatim>\<open>lines\<close> the call raises KeyError.
\<close>

theorem guard_or_malformed_counterexample:
  "\<not> returns_record (extract_invoice_data (PDict [(''status'', PStr ''failed'')])) \<and>
   extract_invoice_data (PDict [(''status'', PStr ''failed'')]) = Inr (PDict []) \<and>
   extract_invoice_data (PDict [(''readResults'', PList [PDict [(''page'', PInt 1)]])]) = Inl KeyError"
  by (simp add: extract_invoice_data_def)

text \<open>
  Claim C2, amended. For every well-formed OCR result the call does not raise and returns
  the pair of a well-formed record (the nine keys, every scalar field a string, \<^verbatim>\<open>items\<close>
  a list of strings) and the concatenated text; for an OCR result that is false (None, an
  empty dict) or does not contain \<^verbatim>\<open>readResults\<close> it returns the empty dict.
\<close>

theorem well_formed_ocr_gives_record:
  "(wf_ocr ocr_result \<longrightarrow>
      returns_record (extract_invoice_data ocr_result) \<and>
      (\<exists>d. extract_invoice_data ocr_result =
             Inr (PTuple [PDict d, PStr (join_lines (ocr_lines ocr_result))]))) \<and>
   (\<not> truthy other \<or> py_contains ''readResults'' other = Inr False \<longrightarrow>
      extract_invoice_data other = Inr (PDict []))"
  by (simp add: wf_ocr_extract extract_fields_record well_formed_invoice_record extract_guard)

text \<open>Both hypotheses of the amended C2 are satisfiable.\<close>

theorem well_formed_ocr_gives_record_witness:
  "wf_ocr (ocr_of [[''Hola'']]) \<and>
   returns_record (extract_invoice_data (ocr_of [[''Hola'']])) \<and>
   (\<exists>d. extract_invoice_data (ocr_of [[''Hola'']]) =
             Inr (PTuple [PDict d, PStr (join_lines (ocr_lines (ocr_of [[''Hola'']])))])) \<and>
   \<not> truthy PNone \<and>
   extract_invoice_data PNone = Inr (PDict [])"
  using well_formed_ocr_gives_record [of "ocr_of [[''Hola'']]" PNone] wf_ocr_of [of "[[''Hola'']]"]
  by simp

subsection \<open>Claims about the pattern loop\<close>

text \<open>A match found by the search is a word of the expression, somewhere in the text.\<close>

lemma re_search_lang:
  "re_search r s ic = Some m \<Longrightarrow> \<exists>pre w. s = pre @ w @ fst m \<and> w \<in> lang ic r"
proof (induction s)
  case Nil
  then have "m \<in> set (ms ic r ([], None))" by (auto split: list.splits)
  from ms_lang [OF this] show ?case by auto
next
  case (Cons c cs)
  show ?case
  proof (cases "ms ic r (c # cs, None)")
    case Nil
    with Cons.prems have "re_search r cs ic = Some m" by simp
    from Cons.IH [OF this] obtain pre w where "cs = pre @ w @ fst m" "w \<in> lang ic r" by blast
    then have "c # cs = (c # pre) @ w @ fst m" "w \<in> lang ic r" by simp_all
    then show ?thesis by blast
  next
    case (Cons m' ms')
    with Cons.prems have "m \<in> set (ms ic r (c # cs, None))" by simp
    from ms_lang [OF this] obtain w where "w \<in> lang ic r" "c # cs = w @ fst m" by auto
    then have "c # cs = [] @ w @ fst m" "w \<in> lang ic r" by simp_all
    then show ?thesis by blast
  qed
qed

lemma in_class_digit [simp]: "in_class ic [CDigit] c = is_digit c"
  by (simp add: in_class_def)

lemma space_not_code_char:
  "is_space c \<Longrightarrow>
   \<not> in_class ic [CRange CHR ''A'' CHR ''Z'', CRange CHR ''0'' CHR ''9'', CChar CHR ''-''] c"
  apply (simp only: is_space_def list.set insert_iff empty_iff)
  apply (elim disjE)
  apply (simp_all add: in_class_def in_range_def char_eq_def lower_def upper_def is_upper_def
      is_lower_def)
  done

lemma first_match_value_Cons:
  "first_match_value (p # ps) t =
     (case re_search p t True of
        Some m \<Rightarrow> (case group1 m of None \<Rightarrow> [] | Some g \<Rightarrow> strip g)
      | None \<Rightarrow> first_match_value ps t)"
  by (simp add: first_match_value_def split: option.splits)

lemma first_match_value_Nil: "first_match_value [] t = []"
  by (simp add: first_match_value_def)

lemma invoice_field_extract:
  assumes "wf_ocr ocr_result" and "full_text = join_lines (ocr_lines ocr_result)"
  shows "invoice_field k (extract_invoice_data ocr_result) = map_of (invoice_record full_text) k"
  using assms by (simp add: wf_ocr_extract extract_fields_record)

lemma digits_lang:
  assumes "g \<in> lang ic (Rep m n digit)"
  shows "list_all is_digit g \<and> m \<le> length g \<and>
         (case n of None \<Rightarrow> True | Some k \<Rightarrow> length g \<le> k)"
  using lang_rep_cls [of g ic m n "[CDigit]"] assms by (simp add: digit_def list_all_iff)

lemma map_of_record_ruc:
  "map_of (invoice_record t) ''ruc_nit'' = Some (PStr (first_match_value [ruc_nit_1, ruc_nit_2] t))"
  by (simp add: invoice_record_def)

lemma record_field_first_match:
  "\<forall>(field, field_patterns) \<in> set patterns.
     map_of (invoice_record t) field = Some (PStr (first_match_value field_patterns t))"
  by (simp add: patterns_def invoice_record_def)

lemma code_group_strip:
  assumes "g \<in> lang True
     (Rep 1 None (Cls [CRange CHR ''A'' CHR ''Z'', CRange CHR ''0'' CHR ''9'', CChar CHR ''-'']))"
  shows "strip g = g"
proof -
  from lang_rep_cls [OF assms] space_not_code_char
  have "\<forall>c \<in> set g. \<not> is_space c" by blast
  then show ?thesis by (rule strip_id)
qed

text \<open>
  Claim C3. First match wins per field: for every field of the pattern table the returned
  value is that of the first pattern of the field's list that matches; while a field holds
  a non-empty value the loop over the remaining patterns leaves the dict as it is; and
  whenever the \<^verbatim>\<open>factura\<close> pattern matches, the invoice number is exactly group 1 of that
  match, whatever the later patterns (\<^verbatim>\<open>fact\<close>, \<^verbatim>\<open>serie\<close>) would capture.
\<close>

theorem first_match_wins:
  assumes "wf_ocr ocr_result" and "full_text = join_lines (ocr_lines ocr_result)"
  shows "(\<forall>(field, field_patterns) \<in> set patterns.
            invoice_field field (extract_invoice_data ocr_result) =
              Some (PStr (first_match_value field_patterns full_text))) \<and>
         (\<forall>invoice_data fld v rest.
            map_of invoice_data fld = Some (PStr v) \<and> v \<noteq> [] \<longrightarrow>
            pattern_loop full_text fld rest invoice_data = Inr invoice_data) \<and>
         (\<forall>m. re_search numero_factura_1 full_text True = Some m \<longrightarrow>
            (\<exists>g. group1 m = Some g \<and>
                 invoice_field ''numero_factura'' (extract_invoice_data ocr_result) =
                   Some (PStr g)))"
proof (intro conjI allI impI)
  show "\<forall>(field, field_patterns) \<in> set patterns.
            invoice_field field (extract_invoice_data ocr_result) =
              Some (PStr (first_match_value field_patterns full_text))"
    using record_field_first_match [of full_text]
    by (simp only: invoice_field_extract [OF assms])
next
  fix invoice_data :: "(string \<times> pyval) list" and fld :: string and v rest
  assume "map_of invoice_data fld = Some (PStr v) \<and> v \<noteq> []"
  then show "pattern_loop full_text fld rest invoice_data = Inr invoice_data"
    by (simp add: pattern_loop_keep)
next
  fix m assume m: "re_search numero_factura_1 full_text True = Some m"
  from re_search_group_lang [OF captures_patterns(1) m]
  obtain g where g: "g \<in> lang True
     (Rep 1 None (Cls [CRange CHR ''A'' CHR ''Z'', CRange CHR ''0'' CHR ''9'', CChar CHR ''-'']))"
    "group1 m = Some g"
    by (auto simp: numero_factura_1_def code_group_def)
  have "map_of (invoice_record full_text) ''numero_factura'' =
          Some (PStr (first_match_value [numero_factura_1, numero_factura_2, numero_factura_3] full_text))"
    by (simp add: invoice_record_def)
  with m g(2) code_group_strip [OF g(1)]
  have "invoice_field ''numero_factura'' (extract_invoice_data ocr_result) = Some (PStr g)"
    by (simp add: invoice_field_extract [OF assms] first_match_value_Cons)
  with g(2) show "\<exists>g. group1 m = Some g \<and>
      invoice_field ''numero_factura'' (extract_invoice_data ocr_result) = Some (PStr g)"
    by simp
qed

text \<open>A line on which both the \<^verbatim>\<open>factura\<close> and the \<^verbatim>\<open>serie\<close> pattern match.\<close>

lemma factura_serie_sample:
  "re_search numero_factura_1 ''Factura: A1 Serie: B2\<newline>'' True =
     Some ('' Serie: B2\<newline>'', Some ''A1'')"
  "re_search numero_factura_3 ''Factura: A1 Serie: B2\<newline>'' True =
     Some (''\<newline>'', Some ''B2'')"
  by code_simp+

text \<open>The hypotheses of C3 at that line: the invoice number is the capture of the first.\<close>

theorem first_match_wins_witness:
  "wf_ocr (ocr_of [[''Factura: A1 Serie: B2'']]) \<and>
   ''Factura: A1 Serie: B2\<newline>'' = join_lines (ocr_lines (ocr_of [[''Factura: A1 Serie: B2'']])) \<and>
   re_search numero_factura_1 ''Factura: A1 Serie: B2\<newline>'' True =
     Some ('' Serie: B2\<newline>'', Some ''A1'') \<and>
   re_search numero_factura_3 ''Factura: A1 Serie: B2\<newline>'' True =
     Some (''\<newline>'', Some ''B2'') \<and>
   invoice_field ''numero_factura'' (extract_invoice_data (ocr_of [[''Factura: A1 Serie: B2'']])) =
     Some (PStr ''A1'')"
proof -
  have w: "wf_ocr (ocr_of [[''Factura: A1 Serie: B2'']])" by (rule wf_ocr_of)
  have t: "''Factura: A1 Serie: B2\<newline>'' =
      join_lines (ocr_lines (ocr_of [[''Factura: A1 Serie: B2'']]))"
    by (simp add: ocr_lines_ocr_of)
  from first_match_wins [OF w t] factura_serie_sample(1)
  have "invoice_field ''numero_factura'' (extract_invoice_data (ocr_of [[''Factura: A1 Serie: B2'']])) =
     Some (PStr ''A1'')"
    by (simp add: group1_def)
  with w t factura_serie_sample show ?thesis by simp
qed

subsection \<open>Claims about the heuristics\<close>

lemma find_append_none:
  "\<forall>y \<in> set ys. \<not> P y \<Longrightarrow> find P (xs @ ys) = find P xs"
proof (induction xs)
  case Nil
  then show ?case by (induction ys) auto
next
  case (Cons x xs)
  then show ?case by simp
qed

lemma company_line_empty: "\<not> company_line []"
  by (simp add: company_line_def strip_def)

lemma company_name_trailing_empty: "company_name (ls @ [[]]) = company_name ls"
proof -
  have "find company_line (take 5 ls @ take (5 - length ls) [[]]) = find company_line (take 5 ls)"
    by (rule find_append_none) (auto simp: company_line_empty dest: in_set_takeD)
  then show ?thesis by (simp add: company_name_def)
qed

text \<open>
  Lines of the example, a search that does not depend on what follows the two lines, and
  the reading of the digit search as "contains a digit".
\<close>

lemma acme_company_line:
  "company_line ''ACME CORP''" "strip ''ACME CORP'' = ''ACME CORP''"
  by code_simp+

lemma acme_ruc_search:
  "re_search ruc_nit_1 (''ACME CORP\<newline>RUC: 12345678901\<newline>'' @ rest) True =
     Some (CHR ''\<newline>'' # rest, Some ''12345678901'')"
  by (simp add: ruc_nit_1_def sep_def digit_def ms_Rep in_class_def char_eq_def lower_def
      upper_def is_upper_def is_lower_def in_range_def is_digit_def is_space_def)

lemma digit_search_none:
  "(re_search digit line ic = None) = (\<forall>c \<in> set line. \<not> is_digit c)"
  by (induction line) (simp_all add: digit_def in_class_def)

lemma record_empresa:
  "map_of (invoice_record t) ''empresa'' = Some (PStr (company_name (split_nl t)))"
  by (simp add: invoice_record_def)

text \<open>
  Claim C4. The company field is the trimmed text of the first line, among the first 5
  lines of the text, whose trimmed length exceeds 5 and which contains no digit, and is
  empty when there is no such line; the lines are those of the concatenated text, which
  are the OCR lines (followed by one empty line) when no OCR line contains a line feed.
  When the first line is \<^verbatim>\<open>ACME CORP\<close> and the second is \<^verbatim>\<open>RUC: 12345678901\<close>, whatever
  follows, the company is \<^verbatim>\<open>ACME CORP\<close> and the tax id is \<^verbatim>\<open>12345678901\<close>.
\<close>

theorem company_heuristic:
  assumes "wf_ocr ocr_result" and "full_text = join_lines (ocr_lines ocr_result)"
  shows "invoice_field ''empresa'' (extract_invoice_data ocr_result) =
           Some (PStr (case find company_line (take 5 (split_nl full_text)) of
                         None \<Rightarrow> [] | Some line \<Rightarrow> strip line)) \<and>
         (\<forall>line. company_line line = (5 < length (strip line) \<and> (\<forall>c \<in> set line. \<not> is_digit c))) \<and>
         ((\<forall>line \<in> set (ocr_lines ocr_result). CHR ''\<newline>'' \<notin> set line) \<longrightarrow>
            invoice_field ''empresa'' (extract_invoice_data ocr_result) =
              Some (PStr (case find company_line (take 5 (ocr_lines ocr_result)) of
                            None \<Rightarrow> [] | Some line \<Rightarrow> strip line))) \<and>
         (\<forall>rest. ocr_lines ocr_result = ''ACME CORP'' # ''RUC: 12345678901'' # rest \<longrightarrow>
            invoice_field ''empresa'' (extract_invoice_data ocr_result) = Some (PStr ''ACME CORP'') \<and>
            invoice_field ''ruc_nit'' (extract_invoice_data ocr_result) = Some (PStr ''12345678901''))"
proof (intro conjI allI impI)
  show "invoice_field ''empresa'' (extract_invoice_data ocr_result) =
           Some (PStr (case find company_line (take 5 (split_nl full_text)) of
                         None \<Rightarrow> [] | Some line \<Rightarrow> strip line))"
    by (simp only: invoice_field_extract [OF assms] record_empresa company_name_def)
next
  fix line
  show "company_line line = (5 < length (strip line) \<and> (\<forall>c \<in> set line. \<not> is_digit c))"
    by (simp only: company_line_def digit_search_none)
next
  assume "\<forall>line \<in> set (ocr_lines ocr_result). CHR ''\<newline>'' \<notin> set line"
  from split_nl_join [OF this, of "[]"] assms(2)
  have "split_nl full_text = ocr_lines ocr_result @ [[]]" by simp
  then have "company_name (split_nl full_text) = company_name (ocr_lines ocr_result)"
    by (simp only: company_name_trailing_empty)
  then show "invoice_field ''empresa'' (extract_invoice_data ocr_result) =
              Some (PStr (case find company_line (take 5 (ocr_lines ocr_result)) of
                            None \<Rightarrow> [] | Some line \<Rightarrow> strip line))"
    by (simp only: invoice_field_extract [OF assms] record_empresa company_name_def)
next
  fix rest
  assume l: "ocr_lines ocr_result = ''ACME CORP'' # ''RUC: 12345678901'' # rest"
  with assms(2) have t: "full_text = ''ACME CORP\<newline>RUC: 12345678901\<newline>'' @ join_lines rest"
    by simp
  have "split_nl full_text = ''ACME CORP'' # split_nl (''RUC: 12345678901\<newline>'' @ join_lines rest)"
    using split_nl_line [of "''ACME CORP''" "''RUC: 12345678901\<newline>'' @ join_lines rest"]
    by (simp add: t)
  then have "company_name (split_nl full_text) = ''ACME CORP''"
    by (simp add: company_name_def acme_company_line)
  then show "invoice_field ''empresa'' (extract_invoice_data ocr_result) = Some (PStr ''ACME CORP'')"
    by (simp only: invoice_field_extract [OF assms] record_empresa)
  have "re_search ruc_nit_1 full_text True =
          Some (CHR ''\<newline>'' # join_lines rest, Some ''12345678901'')"
    unfolding t by (rule acme_ruc_search)
  then have "first_match_value [ruc_nit_1, ruc_nit_2] full_text = ''12345678901''"
    by (simp add: first_match_value_Cons group1_def strip_def is_space_def)
  then show "invoice_field ''ruc_nit'' (extract_invoice_data ocr_result) = Some (PStr ''12345678901'')"
    by (simp only: invoice_field_extract [OF assms] map_of_record_ruc)
qed

text \<open>The hypotheses of C4 at the two lines of the example.\<close>

theorem company_heuristic_witness:
  "wf_ocr (ocr_of [[''ACME CORP'', ''RUC: 12345678901'']]) \<and>
   ''ACME CORP\<newline>RUC: 12345678901\<newline>'' =
      join_lines (ocr_lines (ocr_of [[''ACME CORP'', ''RUC: 12345678901'']])) \<and>
   ocr_lines (ocr_of [[''ACME CORP'', ''RUC: 12345678901'']]) =
      ''ACME CORP'' # ''RUC: 12345678901'' # [] \<and>
   CHR ''\<newline>'' \<notin> set ''ACME CORP'' \<and> CHR ''\<newline>'' \<notin> set ''RUC: 12345678901'' \<and>
   invoice_field ''empresa'' (extract_invoice_data (ocr_of [[''ACME CORP'', ''RUC: 12345678901'']])) =
      Some (PStr ''ACME CORP'') \<and>
   invoice_field ''ruc_nit'' (extract_invoice_data (ocr_of [[''ACME CORP'', ''RUC: 12345678901'']])) =
      Some (PStr ''12345678901'')"
proof -
  have w: "wf_ocr (ocr_of [[''ACME CORP'', ''RUC: 12345678901'']])" by (rule wf_ocr_of)
  have l: "ocr_lines (ocr_of [[''ACME CORP'', ''RUC: 12345678901'']]) =
      ''ACME CORP'' # ''RUC: 12345678901'' # []"
    by (simp add: ocr_lines_ocr_of)
  have t: "''ACME CORP\<newline>RUC: 12345678901\<newline>'' =
      join_lines (ocr_lines (ocr_of [[''ACME CORP'', ''RUC: 12345678901'']]))"
    by (simp add: l)
  from company_heuristic [OF w t] l
  have "invoice_field ''empresa'' (extract_invoice_data (ocr_of [[''ACME CORP'', ''RUC: 12345678901'']])) =
      Some (PStr ''ACME CORP'') \<and>
   invoice_field ''ruc_nit'' (extract_invoice_data (ocr_of [[''ACME CORP'', ''RUC: 12345678901'']])) =
      Some (PStr ''12345678901'')"
    by blast
  with w t l show ?thesis by simp
qed

text \<open>
  A qualifying line contains a decimal separator outside its surrounding whitespace; the
  lines of the examples.
\<close>

lemma item_line_empty: "\<not> item_line []"
  by (simp add: item_line_def split_def)

lemma record_items:
  "map_of (invoice_record t) ''items'' =
     Some (PList (map (\<lambda>line. PStr (strip line)) (filter item_line (split_nl t))))"
  by (simp add: invoice_record_def comp_def)

lemma price_lang:
  assumes "w \<in> lang False price"
  shows "CHR ''.'' \<in> set w \<or> CHR '','' \<in> set w"
proof -
  from assms obtain u v x where w: "w = u @ v @ x"
    and v: "v \<in> lang False (Cls [CChar CHR ''.'', CChar CHR '',''])"
    by (auto simp: price_def)
  from v have "v = ''.'' \<or> v = '',''"
    by (auto simp: in_class_def char_eq_def)
  with w show ?thesis by auto
qed

lemma mem_strip:
  assumes "c \<in> set l" and "\<not> is_space c"
  shows "c \<in> set (strip l)"
proof -
  have d: "\<And>xs. c \<in> set xs \<Longrightarrow> c \<in> set (dropWhile is_space xs)"
  proof -
    fix xs assume "c \<in> set xs"
    then have "c \<in> set (takeWhile is_space xs @ dropWhile is_space xs)" by simp
    then have "c \<in> set (takeWhile is_space xs) \<or> c \<in> set (dropWhile is_space xs)"
      by (simp only: set_append Un_iff)
    with assms(2) show "c \<in> set (dropWhile is_space xs)"
      by (auto dest: set_takeWhileD)
  qed
  from assms(1) have "c \<in> set (dropWhile is_space l)" by (rule d)
  then have "c \<in> set (rev (dropWhile is_space l))" by simp
  then have "c \<in> set (dropWhile is_space (rev (dropWhile is_space l)))" by (rule d)
  then show ?thesis by (simp add: strip_def)
qed

lemma item_line_separator:
  assumes "item_line l"
  shows "CHR ''.'' \<in> set (strip l) \<or> CHR '','' \<in> set (strip l)"
proof -
  from assms obtain m where "re_search price l False = Some m"
    by (auto simp: item_line_def)
  from re_search_lang [OF this] obtain pre w where l: "l = pre @ w @ fst m"
    and w: "w \<in> lang False price" by blast
  from price_lang [OF w] l have "CHR ''.'' \<in> set l \<or> CHR '','' \<in> set l" by auto
  moreover have "\<not> is_space CHR ''.''" "\<not> is_space CHR '',''" by (simp_all add: is_space_def)
  ultimately show ?thesis using mem_strip by blast
qed

lemma widget_item_line:
  "item_line ''Widget A  2  19.99''"
  "strip ''Widget A  2  19.99'' = ''Widget A  2  19.99''"
  "item_line '' Widget A 2 19.99''"
  "strip '' Widget A 2 19.99'' = ''Widget A 2 19.99''"
  "\<not> item_line ''Phone: 123''"
  by code_simp+

lemma displayed_items_take: "map snd (displayed_items xs) = take 5 xs"
proof -
  have "length [1 ..< Suc (length (take 5 xs))] = length (take 5 xs)"
    by (simp only: length_upt diff_Suc_1)
  then show ?thesis unfolding displayed_items_def by (rule map_snd_zip)
qed

text \<open>
  Claim C5 as stated fails for a line with surrounding whitespace: the line qualifies, but
  what is appended to \<^verbatim>\<open>items\<close> is its trimmed text, so the line itself is not among the
  items.
\<close>

theorem untrimmed_item_line_counterexample:
  "item_line '' Widget A 2 19.99'' \<and>
   invoice_field ''items'' (extract_invoice_data (ocr_of [['' Widget A 2 19.99'']])) =
     Some (PList [PStr ''Widget A 2 19.99'']) \<and>
   PStr '' Widget A 2 19.99'' \<notin> set [PStr ''Widget A 2 19.99'']"
proof -
  have w: "wf_ocr (ocr_of [['' Widget A 2 19.99'']])" by (rule wf_ocr_of)
  have t: "'' Widget A 2 19.99\<newline>'' = join_lines (ocr_lines (ocr_of [['' Widget A 2 19.99'']]))"
    by (simp add: ocr_lines_ocr_of)
  have "split_nl '' Widget A 2 19.99\<newline>'' = ['' Widget A 2 19.99'', []]"
    by simp
  then have "invoice_field ''items'' (extract_invoice_data (ocr_of [['' Widget A 2 19.99'']])) =
     Some (PList [PStr ''Widget A 2 19.99''])"
    by (simp only: invoice_field_extract [OF w t] record_items)
       (simp add: widget_item_line item_line_empty)
  with widget_item_line(3) show ?thesis by simp
qed

text \<open>
  Claim C5, amended. The items are the trimmed texts of exactly the lines that contain a
  match of \<^verbatim>\<open>\d+[\.\,]\d{2}\<close> and split into 3 or more tokens, in the order of the lines
  and without a cap; the lines are those of the concatenated text, which are the OCR lines
  (followed by an empty line, which does not qualify) when no OCR line contains a line
  feed. The line \<^verbatim>\<open>Widget A  2  19.99\<close> qualifies and is its own trimmed text;
  \<^verbatim>\<open>Phone: 123\<close> is the trimmed text of no qualifying line. The display shows the first
  five of the items.
\<close>

theorem items_heuristic:
  assumes "wf_ocr ocr_result" and "full_text = join_lines (ocr_lines ocr_result)"
  shows "invoice_field ''items'' (extract_invoice_data ocr_result) =
           Some (PList (map (\<lambda>line. PStr (strip line)) (filter item_line (split_nl full_text)))) \<and>
         (\<forall>line. item_line line =
            (re_search price line False \<noteq> None \<and> 3 \<le> length (split line))) \<and>
         ((\<forall>line \<in> set (ocr_lines ocr_result). CHR ''\<newline>'' \<notin> set line) \<longrightarrow>
            invoice_field ''items'' (extract_invoice_data ocr_result) =
              Some (PList (map (\<lambda>line. PStr (strip line))
                             (filter item_line (ocr_lines ocr_result))))) \<and>
         item_line ''Widget A  2  19.99'' \<and>
         strip ''Widget A  2  19.99'' = ''Widget A  2  19.99'' \<and>
         (\<forall>line. item_line line \<longrightarrow> strip line \<noteq> ''Phone: 123'') \<and>
         (\<forall>items. map snd (displayed_items items) = take 5 items)"
proof (intro conjI allI impI)
  show "invoice_field ''items'' (extract_invoice_data ocr_result) =
           Some (PList (map (\<lambda>line. PStr (strip line)) (filter item_line (split_nl full_text))))"
    by (simp only: invoice_field_extract [OF assms] record_items)
next
  fix line
  show "item_line line = (re_search price line False \<noteq> None \<and> 3 \<le> length (split line))"
    by (simp only: item_line_def)
next
  assume "\<forall>line \<in> set (ocr_lines ocr_result). CHR ''\<newline>'' \<notin> set line"
  from split_nl_join [OF this, of "[]"] assms(2)
  have "split_nl full_text = ocr_lines ocr_result @ [[]]" by simp
  then have "filter item_line (split_nl full_text) = filter item_line (ocr_lines ocr_result)"
    by (simp add: item_line_empty)
  then show "invoice_field ''items'' (extract_invoice_data ocr_result) =
      Some (PList (map (\<lambda>line. PStr (strip line)) (filter item_line (ocr_lines ocr_result))))"
    by (simp only: invoice_field_extract [OF assms] record_items)
next
  show "item_line ''Widget A  2  19.99''" by (rule widget_item_line)
next
  show "strip ''Widget A  2  19.99'' = ''Widget A  2  19.99''" by (rule widget_item_line)
next
  fix line
  assume i: "item_line line"
  show "strip line \<noteq> ''Phone: 123''"
  proof
    assume "strip line = ''Phone: 123''"
    with item_line_separator [OF i] show False by simp
  qed
next
  fix items :: "pyval list"
  show "map snd (displayed_items items) = take 5 items" by (rule displayed_items_take)
qed

text \<open>The hypotheses of the amended C5 at the two lines of the example.\<close>

theorem items_heuristic_witness:
  "wf_ocr (ocr_of [[''Widget A  2  19.99'', ''Phone: 123'']]) \<and>
   ''Widget A  2  19.99\<newline>Phone: 123\<newline>'' =
      join_lines (ocr_lines (ocr_of [[''Widget A  2  19.99'', ''Phone: 123'']])) \<and>
   ocr_lines (ocr_of [[''Widget A  2  19.99'', ''Phone: 123'']]) =
      [''Widget A  2  19.99'', ''Phone: 123''] \<and>
   CHR ''\<newline>'' \<notin> set ''Widget A  2  19.99'' \<and> CHR ''\<newline>'' \<notin> set ''Phone: 123'' \<and>
   item_line ''Widget A  2  19.99'' \<and>
   invoice_field ''items'' (extract_invoice_data (ocr_of [[''Widget A  2  19.99'', ''Phone: 123'']])) =
      Some (PList [PStr ''Widget A  2  19.99''])"
proof -
  have w: "wf_ocr (ocr_of [[''Widget A  2  19.99'', ''Phone: 123'']])" by (rule wf_ocr_of)
  have l: "ocr_lines (ocr_of [[''Widget A  2  19.99'', ''Phone: 123'']]) =
      [''Widget A  2  19.99'', ''Phone: 123'']"
    by (simp add: ocr_lines_ocr_of)
  have t: "''Widget A  2  19.99\<newline>Phone: 123\<newline>'' =
      join_lines (ocr_lines (ocr_of [[''Widget A  2  19.99'', ''Phone: 123'']]))"
    by (simp add: l)
  have n: "\<forall>line \<in> set (ocr_lines (ocr_of [[''Widget A  2  19.99'', ''Phone: 123'']])).
             CHR ''\<newline>'' \<notin> set line"
    by (simp add: l)
  from items_heuristic [OF w t] n
  have "invoice_field ''items'' (extract_invoice_data (ocr_of [[''Widget A  2  19.99'', ''Phone: 123'']])) =
      Some (PList (map (\<lambda>line. PStr (strip line))
         (filter item_line (ocr_lines (ocr_of [[''Widget A  2  19.99'', ''Phone: 123'']])))))"
    by blast
  then have "invoice_field ''items'' (extract_invoice_data (ocr_of [[''Widget A  2  19.99'', ''Phone: 123'']])) =
      Some (PList [PStr ''Widget A  2  19.99''])"
    by (simp add: l widget_item_line)
  with w t l widget_item_line(1) show ?thesis by simp
qed

subsection \<open>Claims about the amount patterns\<close>

text \<open>A digit is none of the characters the amount patterns allow around the digits.\<close>

lemma digit_not_sep:
  "is_digit d \<Longrightarrow> \<not> in_class ic [CChar CHR '':'', CSpace] d"
  apply (simp only: is_digit_def list.set insert_iff empty_iff)
  apply (elim disjE)
  apply (simp_all add: in_class_def char_eq_def lower_def is_upper_def is_space_def)
  done

lemma digit_not_currency:
  "is_digit d \<Longrightarrow> \<not> in_class ic [CChar CHR ''S'', CChar CHR ''/'', CChar CHR ''$''] d"
  apply (simp only: is_digit_def list.set insert_iff empty_iff)
  apply (elim disjE)
  apply (simp_all add: in_class_def char_eq_def lower_def is_upper_def)
  done

lemma digit_not_space: "is_digit d \<Longrightarrow> \<not> is_space d"
  apply (simp only: is_digit_def list.set insert_iff empty_iff)
  apply (elim disjE)
  apply (simp_all add: is_space_def)
  done

lemma digit_not_comma: "is_digit d \<Longrightarrow> \<not> char_eq ic CHR '','' d"
  apply (simp only: is_digit_def list.set insert_iff empty_iff)
  apply (elim disjE)
  apply (simp_all add: char_eq_def lower_def is_upper_def)
  done

lemma digit_not_point: "is_digit d \<Longrightarrow> \<not> char_eq ic CHR ''.'' d"
  apply (simp only: is_digit_def list.set insert_iff empty_iff)
  apply (elim disjE)
  apply (simp_all add: char_eq_def lower_def is_upper_def)
  done

lemma in_class_space: "in_class ic [CSpace] c = is_space c"
  by (simp add: in_class_def)

text \<open>
  The amount group on a run of five or more digits: the first alternative of the matcher
  takes three digits for \<^verbatim>\<open>\d{1,3}\<close>, nothing for \<^verbatim>\<open>(?:,\d{3})*\<close> and \<^verbatim>\<open>\.?\<close>, and two
  digits for \<^verbatim>\<open>\d{0,2}\<close>, without looking at what follows.
\<close>

lemma amount_group_five_digits:
  assumes "is_digit d1" "is_digit d2" "is_digit d3" "is_digit d4" "is_digit d5"
  shows "\<exists>others. ms ic amount_group (d1 # d2 # d3 # d4 # d5 # t, g) =
           (t, Some [d1, d2, d3, d4, d5]) # others"
  using assms
  by (simp add: amount_group_def digit_def ms_Rep digit_not_comma digit_not_point)

text \<open>
  The search skips the start positions at which the pattern has no match and reports the
  first alternative at the first position that has one.
\<close>

lemma re_search_here:
  "ms ic r (s, None) = m # others \<Longrightarrow> re_search r s ic = Some m"
  by (cases s) simp_all

lemma re_search_skip:
  "\<forall>k < length pre. ms ic r (drop k (pre @ s), None) = [] \<Longrightarrow>
   re_search r (pre @ s) ic = re_search r s ic"
proof (induction pre)
  case Nil
  then show ?case by simp
next
  case (Cons c pre)
  from Cons.prems have "ms ic r (drop 0 ((c # pre) @ s), None) = []" by blast
  then have h: "re_search r ((c # pre) @ s) ic = re_search r (pre @ s) ic" by simp
  have "\<forall>k < length pre. ms ic r (drop k (pre @ s), None) = []"
  proof (intro allI impI)
    fix k assume "k < length pre"
    then have "Suc k < length (c # pre)" by simp
    with Cons.prems have "ms ic r (drop (Suc k) ((c # pre) @ s), None) = []" by blast
    then show "ms ic r (drop k (pre @ s), None) = []" by simp
  qed
  from Cons.IH [OF this] h show ?case by simp
qed

lemma digits_take5:
  assumes "list_all is_digit ds" and "5 < length ds"
  shows "\<exists>d1 d2 d3 d4 d5 t. ds = d1 # d2 # d3 # d4 # d5 # t \<and> is_digit d1 \<and> is_digit d2 \<and>
           is_digit d3 \<and> is_digit d4 \<and> is_digit d5 \<and> take 5 ds = [d1, d2, d3, d4, d5]"
proof -
  from assms(2) obtain d1 d2 d3 d4 d5 t where "ds = d1 # d2 # d3 # d4 # d5 # t"
    by (cases ds; simp; rename_tac a as; case_tac as; simp; rename_tac b bs; case_tac bs; simp;
        rename_tac c cs; case_tac cs; simp; rename_tac d ds'; case_tac ds'; simp)
  with assms(1) show ?thesis by simp
qed

text \<open>
  First alternatives: a greedy \<^verbatim>\<open>*\<close> over a class first takes the whole run of characters of
  the class, an optional class character is first taken when it is there, and a
  concatenation first continues from the first alternative of its left part.
\<close>

lemma seq_first:
  assumes "\<exists>others. ms ic a st = x # others" and "\<exists>others. ms ic b x = y # others"
  shows "\<exists>others. ms ic (Seq a b) st = y # others"
  using assms by auto

lemma star_first:
  assumes "\<forall>c \<in> set xs. in_class ic cs c" and "t = [] \<or> \<not> in_class ic cs (hd t)"
  shows "\<exists>others. ms ic (Rep 0 None (Cls cs)) (xs @ t, g) = (t, g) # others"
  using assms(1)
proof (induction xs)
  case Nil
  from assms(2) have "ms ic (Cls cs) (t, g) = []" by (cases t) auto
  then show ?case by (simp add: ms_Rep)
next
  case (Cons x xs)
  then obtain others where "ms ic (Rep 0 None (Cls cs)) (xs @ t, g) = (t, g) # others"
    by auto
  with Cons.prems show ?case by (simp add: ms_Rep)
qed

lemma opt_first_take:
  assumes "in_class ic cs c"
  shows "\<exists>others. ms ic (Rep 0 (Some 1) (Cls cs)) (c # t, g) = (t, g) # others"
  using assms by (simp add: ms_Rep)

lemma opt_first_skip:
  assumes "t = [] \<or> \<not> in_class ic cs (hd t)"
  shows "\<exists>others. ms ic (Rep 0 (Some 1) (Cls cs)) (t, g) = (t, g) # others"
proof -
  from assms have "ms ic (Cls cs) (t, g) = []" by (cases t) auto
  then show ?thesis by (simp add: ms_Rep)
qed

lemma lower_consts:
  "lower CHR ''S'' = CHR ''s''" "lower CHR ''/'' = CHR ''/''" "lower CHR ''$'' = CHR ''$''"
  "lower CHR '':'' = CHR '':''"
  by (simp_all add: lower_def is_upper_def)

lemma space_lower: "is_space c \<Longrightarrow> lower c = c"
  apply (simp only: is_space_def list.set insert_iff empty_iff)
  apply (elim disjE)
  apply (simp_all add: lower_def is_upper_def)
  done

lemma currency_not_sep:
  assumes "in_class True [CChar CHR ''S'', CChar CHR ''/'', CChar CHR ''$''] c"
  shows "\<not> in_class True [CChar CHR '':'', CSpace] c"
proof
  assume "in_class True [CChar CHR '':'', CSpace] c"
  then have "lower c = CHR '':'' \<or> is_space c"
    by (auto simp: in_class_def char_eq_def lower_consts)
  moreover from assms have l: "lower c = CHR ''s'' \<or> lower c = CHR ''/'' \<or> lower c = CHR ''$''"
    by (auto simp: in_class_def char_eq_def lower_consts)
  ultimately have "is_space c" by auto
  with l space_lower [of c] show False by (auto simp: is_space_def)
qed

lemma space_in_sep: "is_space c \<Longrightarrow> in_class ic [CChar CHR '':'', CSpace] c"
  by (simp add: in_class_def)

text \<open>
  The part of an amount pattern after the label, on separators, an optional currency
  character, whitespace and at least five digits: the group first holds the first five
  digits.
\<close>

lemma sep_currency_amount_first:
  assumes seps: "\<forall>c \<in> set seps. in_class True [CChar CHR '':'', CSpace] c"
    and cur: "cur = [] \<or>
      (\<exists>c. cur = [c] \<and> in_class True [CChar CHR ''S'', CChar CHR ''/'', CChar CHR ''$''] c)"
    and ws: "\<forall>c \<in> set ws. is_space c"
    and ds: "is_digit d1" "is_digit d2" "is_digit d3" "is_digit d4" "is_digit d5"
  shows "\<exists>others. ms True (Seq sep currency_amount)
            (seps @ cur @ ws @ d1 # d2 # d3 # d4 # d5 # t, g) =
           (t, Some [d1, d2, d3, d4, d5]) # others"
proof -
  let ?D = "d1 # d2 # d3 # d4 # d5 # t"
  have amount: "\<exists>others. ms True amount_group (?D, g) = (t, Some [d1, d2, d3, d4, d5]) # others"
    by (rule amount_group_five_digits [OF ds])
  have spaces: "\<exists>others. ms True (Rep 0 None (Cls [CSpace])) (ws @ ?D, g) = (?D, g) # others"
    using ws ds(1) by (intro star_first) (simp_all add: in_class_space digit_not_space)
  have tail: "\<exists>others. ms True (Seq (Rep 0 None (Cls [CSpace])) amount_group) (ws @ ?D, g) =
      (t, Some [d1, d2, d3, d4, d5]) # others"
    by (rule seq_first [OF spaces amount])
  show ?thesis
  proof (cases "cur = []")
    case True
    have "\<exists>others. ms True sep ((seps @ ws) @ ?D, g) = (?D, g) # others"
      unfolding sep_def using seps ws ds(1)
      by (intro star_first) (auto simp: space_in_sep digit_not_sep)
    then have s: "\<exists>others. ms True sep (seps @ cur @ ws @ ?D, g) = (?D, g) # others"
      using True by simp
    have o: "\<exists>others. ms True (Rep 0 (Some 1) (Cls [CChar CHR ''S'', CChar CHR ''/'', CChar CHR ''$'']))
        (?D, g) = (?D, g) # others"
      using ds(1) by (intro opt_first_skip) (simp add: digit_not_currency)
    have w: "\<exists>others. ms True (Rep 0 None (Cls [CSpace])) ([] @ ?D, g) = (?D, g) # others"
      using ds(1) by (intro star_first) (simp_all add: in_class_space digit_not_space)
    then have "\<exists>others. ms True (Seq (Rep 0 None (Cls [CSpace])) amount_group) (?D, g) =
        (t, Some [d1, d2, d3, d4, d5]) # others"
      using seq_first [OF _ amount] by simp
    from seq_first [OF o this]
    have "\<exists>others. ms True currency_amount (?D, g) = (t, Some [d1, d2, d3, d4, d5]) # others"
      by (simp only: currency_amount_def)
    from seq_first [OF s this] show ?thesis .
  next
    case False
    with cur obtain c where c: "cur = [c]"
      "in_class True [CChar CHR ''S'', CChar CHR ''/'', CChar CHR ''$''] c" by blast
    have "\<exists>others. ms True sep (seps @ (c # ws @ ?D), g) = (c # ws @ ?D, g) # others"
      unfolding sep_def using seps currency_not_sep [OF c(2)]
      by (intro star_first) simp_all
    then have s: "\<exists>others. ms True sep (seps @ cur @ ws @ ?D, g) = (c # ws @ ?D, g) # others"
      using c(1) by simp
    from seq_first [OF opt_first_take [OF c(2)] tail]
    have "\<exists>others. ms True currency_amount (c # ws @ ?D, g) =
        (t, Some [d1, d2, d3, d4, d5]) # others"
      by (simp only: currency_amount_def)
    from seq_first [OF s this] show ?thesis .
  qed
qed

lemma not_amount_patterns:
  "Seq label (Seq sep currency_amount) \<noteq> numero_factura_1"
  "Seq label (Seq sep currency_amount) \<noteq> fecha_1"
  "Seq label (Seq sep currency_amount) \<noteq> ruc_nit_1"
  by (simp_all add: numero_factura_1_def fecha_1_def ruc_nit_1_def sep_def sep_hash_def
      currency_amount_def date_group_def)

lemma amount_pattern_fields:
  assumes "(fld, Seq label (Seq sep currency_amount) # later) \<in> set patterns"
  shows "fld \<in> set [''total'', ''subtotal'', ''igv_iva'']"
  using assms by (simp add: patterns_def not_amount_patterns) (elim disjE conjE; simp)

lemma map_of_record_amounts:
  "map_of (invoice_record t) ''total'' = Some (PStr (first_match_value [total_1, total_2] t))"
  "map_of (invoice_record t) ''subtotal'' = Some (PStr (first_match_value [subtotal_1] t))"
  "map_of (invoice_record t) ''igv_iva'' = Some (PStr (first_match_value [igv_iva_1] t))"
  by (simp_all add: invoice_record_def)

lemma earlier_label_sample:
  "is_substring ''Total: 1234567'' ''Subtotal: 100\<newline>Total: 1234567\<newline>''"
  "list_all is_digit ''1234567''"
  "re_search total_1 ''Subtotal: 100\<newline>Total: 1234567\<newline>'' True =
     Some (''\<newline>Total: 1234567\<newline>'', Some ''100'')"
  "re_search subtotal_1 ''Subtotal: 100\<newline>Total: 1234567\<newline>'' True =
     Some (''\<newline>Total: 1234567\<newline>'', Some ''100'')"
  "re_search igv_iva_1 ''Subtotal: 100\<newline>Total: 1234567\<newline>'' True = None"
  "strip ''100'' = ''100''"
  by code_simp+

text \<open>
  Claim C10. A text with the label \<^verbatim>\<open>Total:\<close> followed by the ungrouped digits 1234567, in
  which no amount field holds their first 5 digits: the pattern of \<^verbatim>\<open>total\<close> matches earlier,
  inside \<^verbatim>\<open>Subtotal: 100\<close>.
\<close>

theorem earlier_label_counterexample:
  "is_substring ''Total: 1234567''
     (join_lines (ocr_lines (ocr_of [[''Subtotal: 100'', ''Total: 1234567'']]))) \<and>
   list_all is_digit ''1234567'' \<and> 5 < length ''1234567'' \<and>
   invoice_field ''total''
     (extract_invoice_data (ocr_of [[''Subtotal: 100'', ''Total: 1234567'']])) = Some (PStr ''100'') \<and>
   invoice_field ''subtotal''
     (extract_invoice_data (ocr_of [[''Subtotal: 100'', ''Total: 1234567'']])) = Some (PStr ''100'') \<and>
   invoice_field ''igv_iva''
     (extract_invoice_data (ocr_of [[''Subtotal: 100'', ''Total: 1234567'']])) = Some (PStr []) \<and>
   ''100'' \<noteq> take 5 ''1234567'' \<and> [] \<noteq> take 5 ''1234567''"
proof -
  let ?o = "ocr_of [[''Subtotal: 100'', ''Total: 1234567'']]"
  let ?t = "''Subtotal: 100\<newline>Total: 1234567\<newline>''"
  have w: "wf_ocr ?o" by (rule wf_ocr_of)
  have t: "?t = join_lines (ocr_lines ?o)" by (simp add: ocr_lines_ocr_of)
  have s: "is_substring ''Total: 1234567'' (join_lines (ocr_lines ?o))"
    using earlier_label_sample(1) by (simp only: t)
  have a: "invoice_field ''total'' (extract_invoice_data ?o) = Some (PStr ''100'')"
    by (simp only: invoice_field_extract [OF w t] map_of_record_amounts first_match_value_Cons
        earlier_label_sample(3,6) group1_def snd_conv option.case)
  have b: "invoice_field ''subtotal'' (extract_invoice_data ?o) = Some (PStr ''100'')"
    by (simp only: invoice_field_extract [OF w t] map_of_record_amounts first_match_value_Cons
        earlier_label_sample(4,6) group1_def snd_conv option.case)
  have c: "invoice_field ''igv_iva'' (extract_invoice_data ?o) = Some (PStr [])"
    by (simp only: invoice_field_extract [OF w t] map_of_record_amounts first_match_value_Cons
        first_match_value_Nil earlier_label_sample(5) option.case)
  have n: "5 < length ''1234567''" "''100'' \<noteq> take 5 ''1234567''" "[] \<noteq> take 5 ''1234567''"
    by simp_all
  show ?thesis by (intro conjI s earlier_label_sample(2) n a b c)
qed

text \<open>
  Claim C10, amended. Let the text contain, at the first position where the first pattern of an
  amount field matches, a label of that pattern followed by separators (\<^verbatim>\<open>[:\s]*\<close>), at
  most one currency character (\<^verbatim>\<open>[S\/\$]?\<close>), whitespace and a run of more than 5
  digits. Then the field (total, subtotal or igv_iva) is exactly the first 5 digits of the
  run: three for \<^verbatim>\<open>\d{1,3}\<close> and two for \<^verbatim>\<open>\d{0,2}\<close>; the other digits are dropped.
\<close>

theorem amount_truncated_to_five_digits:
  assumes "wf_ocr ocr_result" and "full_text = join_lines (ocr_lines ocr_result)"
    and "(fld, Seq label (Seq sep currency_amount) # later) \<in> set patterns"
    and "full_text = pre @ lab @ seps @ cur @ ws @ ds @ rest"
    and "list_all (\<lambda>k. ms True (Seq label (Seq sep currency_amount)) (drop k full_text, None) = [])
           [0 ..< length pre]"
    and "\<exists>others. ms True label (lab @ seps @ cur @ ws @ ds @ rest, None) =
           (seps @ cur @ ws @ ds @ rest, None) # others"
    and "list_all (in_class True [CChar CHR '':'', CSpace]) seps"
    and "cur = [] \<or>
         (\<exists>c. cur = [c] \<and> in_class True [CChar CHR ''S'', CChar CHR ''/'', CChar CHR ''$''] c)"
    and "list_all is_space ws"
    and "list_all is_digit ds" and "5 < length ds"
  shows "fld \<in> set [''total'', ''subtotal'', ''igv_iva''] \<and>
         invoice_field fld (extract_invoice_data ocr_result) = Some (PStr (take 5 ds))"
proof
  show "fld \<in> set [''total'', ''subtotal'', ''igv_iva'']"
    by (rule amount_pattern_fields [OF assms(3)])
next
  let ?p = "Seq label (Seq sep currency_amount)"
  from digits_take5 [OF assms(10,11)] obtain d1 d2 d3 d4 d5 t where
    ds: "ds = d1 # d2 # d3 # d4 # d5 # t" and d: "is_digit d1" "is_digit d2" "is_digit d3"
      "is_digit d4" "is_digit d5" and tk: "take 5 ds = [d1, d2, d3, d4, d5]" by blast
  from assms(7,9) have "\<forall>c \<in> set seps. in_class True [CChar CHR '':'', CSpace] c"
    and "\<forall>c \<in> set ws. is_space c" by (simp_all add: list_all_iff)
  from sep_currency_amount_first [OF this(1) assms(8) this(2) d, of "t @ rest" None]
  have "\<exists>others. ms True (Seq sep currency_amount) (seps @ cur @ ws @ ds @ rest, None) =
          (t @ rest, Some (take 5 ds)) # others"
    by (simp add: ds)
  from seq_first [OF assms(6) this]
  have "\<exists>others. ms True ?p (lab @ seps @ cur @ ws @ ds @ rest, None) =
          (t @ rest, Some (take 5 ds)) # others" .
  then obtain others where "ms True ?p (lab @ seps @ cur @ ws @ ds @ rest, None) =
          (t @ rest, Some (take 5 ds)) # others" ..
  then have here: "re_search ?p (lab @ seps @ cur @ ws @ ds @ rest) True =
      Some (t @ rest, Some (take 5 ds))"
    by (rule re_search_here)
  from assms(5) have "\<forall>k < length pre. ms True ?p (drop k full_text, None) = []"
    by (simp add: list_all_iff)
  then have "\<forall>k < length pre.
      ms True ?p (drop k (pre @ lab @ seps @ cur @ ws @ ds @ rest), None) = []"
    by (simp only: assms(4))
  from re_search_skip [OF this] here assms(4)
  have s: "re_search ?p full_text True = Some (t @ rest, Some (take 5 ds))" by simp
  from d tk have "\<forall>c \<in> set (take 5 ds). \<not> is_space c" by (simp add: digit_not_space)
  then have "strip (take 5 ds) = take 5 ds" by (rule strip_id)
  with s have "first_match_value (?p # later) full_text = take 5 ds"
    by (simp add: first_match_value_Cons group1_def)
  moreover from record_field_first_match [of full_text] assms(3)
  have "map_of (invoice_record full_text) fld =
          Some (PStr (first_match_value (?p # later) full_text))" by blast
  ultimately show "invoice_field fld (extract_invoice_data ocr_result) = Some (PStr (take 5 ds))"
    by (simp only: invoice_field_extract [OF assms(1,2)])
qed

text \<open>
  The hypotheses of C10 at a total of seven digits after a currency sign, on the second
  line of the text.
\<close>

lemma long_total_sample:
  "list_all (\<lambda>k. ms True (Seq (Alt (Lit ''total'') (Lit ''amount'')) (Seq sep currency_amount))
                    (drop k ''Item 1\<newline>TOTAL: $ 1234567\<newline>'', None) = [])
     [0 ..< length ''Item 1\<newline>'']"
  "ms True (Alt (Lit ''total'') (Lit ''amount'')) (''TOTAL: $ 1234567\<newline>'', None) =
     [('': $ 1234567\<newline>'', None)]"
  "list_all (in_class True [CChar CHR '':'', CSpace]) '': ''"
  "in_class True [CChar CHR ''S'', CChar CHR ''/'', CChar CHR ''$''] CHR ''$''"
  "list_all is_space '' ''"
  "list_all is_digit ''1234567''"
  by code_simp+

theorem amount_truncated_to_five_digits_witness:
  "wf_ocr (ocr_of [[''Item 1'', ''TOTAL: $ 1234567'']]) \<and>
   ''Item 1\<newline>TOTAL: $ 1234567\<newline>'' =
      join_lines (ocr_lines (ocr_of [[''Item 1'', ''TOTAL: $ 1234567'']])) \<and>
   (''total'', Seq (Alt (Lit ''total'') (Lit ''amount'')) (Seq sep currency_amount) # [total_2])
      \<in> set patterns \<and>
   ''Item 1\<newline>TOTAL: $ 1234567\<newline>'' =
      ''Item 1\<newline>'' @ ''TOTAL'' @ '': '' @ ''$'' @ '' '' @ ''1234567'' @ ''\<newline>'' \<and>
   list_all (\<lambda>k. ms True (Seq (Alt (Lit ''total'') (Lit ''amount'')) (Seq sep currency_amount))
                    (drop k ''Item 1\<newline>TOTAL: $ 1234567\<newline>'', None) = [])
     [0 ..< length ''Item 1\<newline>''] \<and>
   list_all (in_class True [CChar CHR '':'', CSpace]) '': '' \<and>
   in_class True [CChar CHR ''S'', CChar CHR ''/'', CChar CHR ''$''] CHR ''$'' \<and>
   list_all is_space '' '' \<and>
   list_all is_digit ''1234567'' \<and> 5 < length ''1234567'' \<and>
   invoice_field ''total'' (extract_invoice_data (ocr_of [[''Item 1'', ''TOTAL: $ 1234567'']])) =
      Some (PStr ''12345'')"
proof -
  have w: "wf_ocr (ocr_of [[''Item 1'', ''TOTAL: $ 1234567'']])" by (rule wf_ocr_of)
  have t: "''Item 1\<newline>TOTAL: $ 1234567\<newline>'' =
      join_lines (ocr_lines (ocr_of [[''Item 1'', ''TOTAL: $ 1234567'']]))"
    by (simp add: ocr_lines_ocr_of)
  have p: "(''total'', Seq (Alt (Lit ''total'') (Lit ''amount'')) (Seq sep currency_amount) # [total_2])
      \<in> set patterns"
    by (simp add: patterns_def total_1_def)
  have e: "''Item 1\<newline>TOTAL: $ 1234567\<newline>'' =
      ''Item 1\<newline>'' @ ''TOTAL'' @ '': '' @ ''$'' @ '' '' @ ''1234567'' @ ''\<newline>''"
    by simp
  have l: "\<exists>others. ms True (Alt (Lit ''total'') (Lit ''amount''))
             (''TOTAL'' @ '': '' @ ''$'' @ '' '' @ ''1234567'' @ ''\<newline>'', None) =
           ('': '' @ ''$'' @ '' '' @ ''1234567'' @ ''\<newline>'', None) # others"
    using long_total_sample(2) by simp
  have c: "''$'' = [] \<or>
     (\<exists>c. ''$'' = [c] \<and> in_class True [CChar CHR ''S'', CChar CHR ''/'', CChar CHR ''$''] c)"
    using long_total_sample(4) by simp
  have n: "5 < length ''1234567''" by simp
  have tk: "take 5 ''1234567'' = ''12345''" by simp
  from amount_truncated_to_five_digits
    [OF w t p e long_total_sample(1) l long_total_sample(3) c long_total_sample(5,6) n]
  have r: "invoice_field ''total'' (extract_invoice_data (ocr_of [[''Item 1'', ''TOTAL: $ 1234567'']])) =
      Some (PStr ''12345'')"
    unfolding tk by (rule conjunct2)
  show ?thesis
    by (intro conjI w t p e long_total_sample(1) long_total_sample(3) long_total_sample(4)
        long_total_sample(5) long_total_sample(6) n r)
qed

subsection \<open>Claims about the tax id patterns\<close>

text \<open>
  \<^verbatim>\<open>\d{n}\<close> has exactly one way to match, on \<open>n\<close> digits at the start of the text, and the
  fallback \<^verbatim>\<open>(\d{11})\<close> captures them.
\<close>

lemma digits_at_simps:
  "digits_at 0 s" "\<not> digits_at (Suc n) []"
  "digits_at (Suc n) (c # s) = (is_digit c \<and> digits_at n s)"
  by (auto simp: digits_at_def)

lemma rep_exact_digits:
  "ms ic (Rep n (Some n) digit) (s, g) = (if digits_at n s then [(drop n s, g)] else [])"
proof (induction n arbitrary: s)
  case 0
  show ?case by (subst ms_Rep) (simp add: digits_at_simps)
next
  case (Suc n)
  show ?case
  proof (cases s)
    case Nil
    then show ?thesis by (subst ms_Rep) (simp add: digits_at_simps digit_def)
  next
    case (Cons c s')
    then show ?thesis by (subst ms_Rep) (simp add: digits_at_simps digit_def Suc.IH [unfolded digit_def])
  qed
qed

lemma ruc_nit_2_ms:
  "ms ic ruc_nit_2 (s, g) =
     (if digits_at 11 s then [(drop 11 s, Some (take 11 s))] else [])"
proof (cases "digits_at 11 s")
  case True
  then have "11 \<le> length s" by (simp add: digits_at_def)
  then have "length s - (length s - 11) = 11" by simp
  with True show ?thesis by (simp add: ruc_nit_2_def rep_exact_digits)
next
  case False
  then show ?thesis by (simp add: ruc_nit_2_def rep_exact_digits)
qed

lemma re_search_found:
  "ms ic r (s, None) \<noteq> [] \<Longrightarrow> re_search r (pre @ s) ic \<noteq> None"
proof (induction pre)
  case Nil
  then show ?case by (cases s; cases "ms ic r (s, None)") simp_all
next
  case (Cons c pre)
  then show ?case by (cases "ms ic r (c # pre @ s, None)") simp_all
qed

lemma fallback_matches_iff:
  "(re_search ruc_nit_2 s ic \<noteq> None) =
     (\<exists>pre ds rest. s = pre @ ds @ rest \<and> length ds = 11 \<and> list_all is_digit ds)"
proof
  assume "re_search ruc_nit_2 s ic \<noteq> None"
  then obtain m where m: "re_search ruc_nit_2 s ic = Some m" by blast
  from re_search_lang [OF m] obtain pre w where w: "s = pre @ w @ fst m" "w \<in> lang ic ruc_nit_2"
    by blast
  from w(2) have "w \<in> lang ic (Rep 11 (Some 11) digit)" by (simp add: ruc_nit_2_def)
  from digits_lang [OF this] have "length w = 11" "list_all is_digit w" by simp_all
  with w(1) show "\<exists>pre ds rest. s = pre @ ds @ rest \<and> length ds = 11 \<and> list_all is_digit ds"
    by blast
next
  assume "\<exists>pre ds rest. s = pre @ ds @ rest \<and> length ds = 11 \<and> list_all is_digit ds"
  then obtain pre ds rest where s: "s = pre @ ds @ rest" and d: "length ds = 11" "list_all is_digit ds"
    by blast
  from d have "digits_at 11 (ds @ rest)" by (simp add: digits_at_def)
  then have "ms ic ruc_nit_2 (ds @ rest, None) \<noteq> []" by (simp add: ruc_nit_2_ms)
  from re_search_found [OF this] s show "re_search ruc_nit_2 s ic \<noteq> None" by simp
qed

lemma fallback_value:
  assumes "s = pre @ ds @ rest" and "length ds = 11" and "list_all is_digit ds"
    and "list_all (\<lambda>k. \<not> digits_at 11 (drop k s)) [0 ..< length pre]"
  shows "re_search ruc_nit_2 s ic = Some (rest, Some ds)"
proof -
  from assms(2,3) have "digits_at 11 (ds @ rest)" by (simp add: digits_at_def)
  with assms(2) have "ms ic ruc_nit_2 (ds @ rest, None) = (rest, Some ds) # []"
    by (simp add: ruc_nit_2_ms)
  then have here: "re_search ruc_nit_2 (ds @ rest) ic = Some (rest, Some ds)"
    by (rule re_search_here)
  from assms(4) have "\<forall>k < length pre. ms ic ruc_nit_2 (drop k s, None) = []"
    by (simp add: list_all_iff ruc_nit_2_ms)
  then have "\<forall>k < length pre. ms ic ruc_nit_2 (drop k (pre @ ds @ rest), None) = []"
    by (simp only: assms(1))
  from re_search_skip [OF this] here assms(1) show ?thesis by simp
qed


text \<open>
  The label pattern: each label word is the first way the label expression matches, the
  greedy \<^verbatim>\<open>\d{m,n}\<close> takes a whole run of digits that fits, and so the group holds the run.
\<close>

lemma ruc_nit_1_label:
  "ruc_nit_1 = Seq ruc_nit_label (Seq sep (Grp (Rep 10 (Some 15) digit)))"
  by (simp add: ruc_nit_1_def ruc_nit_label_def)

lemma lit_match_append:
  "lit_match ic v w \<Longrightarrow> lit_match ic v (w @ u)"
  by (induction ic v w rule: lit_match.induct) simp_all

lemma lit_first:
  assumes "w \<in> lang ic (Lit v)"
  shows "ms ic (Lit v) (w @ u, g) = [(u, g)]"
proof -
  from assms have "length w = length v" "lit_match ic v w" by simp_all
  then show ?thesis by (simp add: lit_match_append)
qed

lemma lit_other:
  assumes "w \<in> lang True (Lit (p # ps))" and "lower q \<noteq> lower p"
  shows "ms True (Lit (q # qs)) (w @ u, g) = []"
proof -
  from assms(1) obtain c w' where "w = c # w'" "char_eq True p c"
    by (cases w) simp_all
  with assms(2) show ?thesis by (simp add: char_eq_def)
qed

lemma lit_not_space:
  assumes "w \<in> lang True (Lit (p # ps))" and "\<not> is_space (lower p)"
  shows "\<not> in_class True [CSpace] (hd (w @ u))"
proof -
  from assms(1) obtain c w' where w: "w = c # w'" "char_eq True p c"
    by (cases w) simp_all
  have "\<not> is_space c"
  proof
    assume s: "is_space c"
    then have "lower c = c" by (rule space_lower)
    with w(2) s assms(2) show False by (simp add: char_eq_def)
  qed
  with w(1) show ?thesis by (simp add: in_class_space)
qed

lemma label_letters:
  "lower CHR ''r'' \<noteq> lower CHR ''n''" "lower CHR ''r'' \<noteq> lower CHR ''t''"
  "lower CHR ''n'' \<noteq> lower CHR ''t''" "\<not> is_space (lower CHR ''i'')"
  by (simp_all add: lower_def is_upper_def is_space_def)

lemma ruc_nit_label_first:
  assumes "lab \<in> lang True ruc_nit_label"
  shows "\<exists>others. ms True ruc_nit_label (lab @ u, g) = (u, g) # others"
proof -
  let ?ws = "Rep 0 None (Cls [CSpace])"
  from assms have "lab \<in> lang True (Lit ''ruc'') \<union> (lang True (Lit ''nit'') \<union>
      lang True (Seq (Lit ''tax'') (Seq ?ws (Lit ''id''))))"
    by (simp only: ruc_nit_label_def lang.simps(4))
  then consider
      (ruc) "lab \<in> lang True (Lit ''ruc'')"
    | (nit) "lab \<in> lang True (Lit ''nit'')"
    | (tax) "lab \<in> lang True (Seq (Lit ''tax'') (Seq ?ws (Lit ''id'')))"
    by blast
  then show ?thesis
  proof cases
    case ruc
    from lit_first [OF this, of u g] show ?thesis
      by (simp add: ruc_nit_label_def)
  next
    case nit
    from lit_other [OF nit label_letters(1), of "''uc''" u g]
    have "ms True (Lit ''ruc'') (lab @ u, g) = []" .
    with lit_first [OF nit, of u g] show ?thesis
      by (simp add: ruc_nit_label_def)
  next
    case tax
    then have "\<exists>x v. lab = x @ v \<and> x \<in> lang True (Lit ''tax'') \<and>
        v \<in> lang True (Seq ?ws (Lit ''id''))"
      by (simp only: lang.simps(3) mem_Collect_eq)
    then obtain x v where xv: "lab = x @ v" and x: "x \<in> lang True (Lit ''tax'')"
      and v: "v \<in> lang True (Seq ?ws (Lit ''id''))" by blast
    from v have "\<exists>w y. v = w @ y \<and> w \<in> lang True ?ws \<and> y \<in> lang True (Lit ''id'')"
      by (simp only: lang.simps(3) mem_Collect_eq)
    then obtain w y where wy: "v = w @ y" and w: "w \<in> lang True ?ws"
      and y: "y \<in> lang True (Lit ''id'')" by blast
    from xv wy have lab: "lab = x @ w @ y" by simp
    from lit_other [OF x label_letters(2), of "''uc''" "w @ y @ u" g]
    have r: "ms True (Lit ''ruc'') (lab @ u, g) = []" by (simp add: lab)
    from lit_other [OF x label_letters(3), of "''it''" "w @ y @ u" g]
    have n: "ms True (Lit ''nit'') (lab @ u, g) = []" by (simp add: lab)
    from lit_first [OF x, of "w @ y @ u" g]
    have a: "\<exists>others. ms True (Lit ''tax'') (lab @ u, g) = (w @ y @ u, g) # others"
      by (simp add: lab)
    from lang_rep_cls [OF w] have "\<forall>c \<in> set w. in_class True [CSpace] c" by simp
    moreover from lit_not_space [OF y label_letters(4), of u]
    have "y @ u = [] \<or> \<not> in_class True [CSpace] (hd (y @ u))" by simp
    ultimately have b: "\<exists>others. ms True ?ws (w @ y @ u, g) = (y @ u, g) # others"
      by (rule star_first)
    from lit_first [OF y, of u g]
    have c: "\<exists>others. ms True (Lit ''id'') (y @ u, g) = (u, g) # others" by simp
    from seq_first [OF a seq_first [OF b c]]
    obtain others where
      "ms True (Seq (Lit ''tax'') (Seq ?ws (Lit ''id''))) (lab @ u, g) = (u, g) # others" ..
    with r n show ?thesis
      by (simp only: ruc_nit_label_def ms.simps(4) append_Nil) blast
  qed
qed

lemma rep_digits_first:
  assumes "list_all is_digit ds" and "m \<le> length ds" and "length ds \<le> n"
    and "length ds = n \<or> rest = [] \<or> \<not> is_digit (hd rest)"
  shows "\<exists>others. ms ic (Rep m (Some n) digit) (ds @ rest, g) = (rest, g) # others"
  using assms
proof (induction ds arbitrary: m n)
  case Nil
  then have m: "m = 0" by simp
  show ?case
  proof (cases "n = 0")
    case True
    with m show ?thesis by (subst ms_Rep) simp
  next
    case False
    with Nil.prems(4) have "rest = [] \<or> \<not> is_digit (hd rest)" by simp
    then have "ms ic digit (rest, g) = []"
      by (cases rest) (simp_all add: digit_def in_class_digit)
    with m show ?thesis by (subst ms_Rep) simp
  qed
next
  case (Cons d ds)
  from Cons.prems(3) obtain n' where n: "n = Suc n'" by (cases n) simp_all
  from Cons.prems(1) have d: "is_digit d" "list_all is_digit ds" by simp_all
  from Cons.prems(2,3,4) n have "m - 1 \<le> length ds" "length ds \<le> n'"
    "length ds = n' \<or> rest = [] \<or> \<not> is_digit (hd rest)" by auto
  from Cons.IH [OF d(2) this] obtain others where
    ih: "ms ic (Rep (m - 1) (Some n') digit) (ds @ rest, g) = (rest, g) # others" ..
  from d(1) have "ms ic digit (d # ds @ rest, g) = [(ds @ rest, g)]"
    by (simp add: digit_def in_class_digit)
  with ih n show ?case by (subst ms_Rep) simp
qed

lemma ruc_nit_1_first:
  assumes "lab \<in> lang True ruc_nit_label"
    and "list_all (in_class True [CChar CHR '':'', CSpace]) seps"
    and "list_all is_digit ds" and "10 \<le> length ds" and "length ds \<le> 15"
    and "length ds = 15 \<or> rest = [] \<or> \<not> is_digit (hd rest)"
  shows "\<exists>others. ms True ruc_nit_1 (lab @ seps @ ds @ rest, None) = (rest, Some ds) # others"
proof -
  from ruc_nit_label_first [OF assms(1), of "seps @ ds @ rest" None]
  have a: "\<exists>others. ms True ruc_nit_label (lab @ seps @ ds @ rest, None) =
             (seps @ ds @ rest, None) # others" .
  from assms(3,4) obtain d ds' where "ds = d # ds'" "is_digit d" by (cases ds) simp_all
  then have "ds @ rest = [] \<or> \<not> in_class True [CChar CHR '':'', CSpace] (hd (ds @ rest))"
    by (simp add: digit_not_sep)
  moreover from assms(2) have "\<forall>c \<in> set seps. in_class True [CChar CHR '':'', CSpace] c"
    by (simp add: list_all_iff)
  ultimately have b: "\<exists>others. ms True sep (seps @ ds @ rest, None) = (ds @ rest, None) # others"
    unfolding sep_def by (rule star_first [rotated])
  from rep_digits_first [OF assms(3,4,5,6), of True None] obtain others where
    "ms True (Rep 10 (Some 15) digit) (ds @ rest, None) = (rest, None) # others" ..
  then have c: "\<exists>others. ms True (Grp (Rep 10 (Some 15) digit)) (ds @ rest, None) =
                  (rest, Some ds) # others" by simp
  from seq_first [OF a seq_first [OF b c]] show ?thesis
    by (simp only: ruc_nit_1_label)
qed

lemma digits_strip: "list_all is_digit ds \<Longrightarrow> strip ds = ds"
  by (rule strip_id) (simp add: list_all_iff digit_not_space)

lemma label_value:
  assumes "s = pre @ lab @ seps @ ds @ rest"
    and "lab \<in> lang True ruc_nit_label"
    and "list_all (in_class True [CChar CHR '':'', CSpace]) seps"
    and "list_all is_digit ds" and "10 \<le> length ds" and "length ds \<le> 15"
    and "length ds = 15 \<or> rest = [] \<or> \<not> is_digit (hd rest)"
    and "list_all (\<lambda>k. ms True ruc_nit_1 (drop k s, None) = []) [0 ..< length pre]"
  shows "re_search ruc_nit_1 s True = Some (rest, Some ds)"
proof -
  from ruc_nit_1_first [OF assms(2-7)] obtain others where
    "ms True ruc_nit_1 (lab @ seps @ ds @ rest, None) = (rest, Some ds) # others" ..
  then have here: "re_search ruc_nit_1 (lab @ seps @ ds @ rest) True = Some (rest, Some ds)"
    by (rule re_search_here)
  from assms(8) have "\<forall>k < length pre. ms True ruc_nit_1 (drop k s, None) = []"
    by (simp add: list_all_iff)
  then have "\<forall>k < length pre.
      ms True ruc_nit_1 (drop k (pre @ lab @ seps @ ds @ rest), None) = []"
    by (simp only: assms(1))
  from re_search_skip [OF this] here assms(1) show ?thesis by simp
qed

text \<open>
  The label pattern matches somewhere exactly when the text has a label word, separators
  and 10 to 15 digits in a row: a longer run of digits is cut after 15.
\<close>

lemma digit_run_prefix:
  assumes "10 \<le> length (takeWhile is_digit xs)"
  shows "\<exists>ds' rest'. xs = ds' @ rest' \<and> list_all is_digit ds' \<and> 10 \<le> length ds' \<and>
           length ds' \<le> 15 \<and> (length ds' = 15 \<or> rest' = [] \<or> \<not> is_digit (hd rest'))"
proof -
  define n where "n = length (takeWhile is_digit xs)"
  define k where "k = min 15 n"
  have tw: "takeWhile is_digit xs = take n xs" unfolding n_def by (rule takeWhile_eq_take)
  have dw: "dropWhile is_digit xs = drop n xs" unfolding n_def by (rule dropWhile_eq_drop)
  have le: "n \<le> length xs" unfolding n_def by (rule length_takeWhile_le)
  have kn: "k \<le> n" "k \<le> 15" unfolding k_def by simp_all
  from assms have k10: "10 \<le> k" unfolding k_def n_def by simp
  from kn(1) have "take k xs = take k (take n xs)" by (simp add: min_absorb1)
  then have "set (take k xs) \<subseteq> set (takeWhile is_digit xs)"
    by (simp only: tw set_take_subset)
  then have d: "list_all is_digit (take k xs)"
    by (auto simp: list_all_iff dest: set_takeWhileD)
  from le kn(1) have l: "length (take k xs) = k" by simp
  have e: "k = 15 \<or> drop k xs = [] \<or> \<not> is_digit (hd (drop k xs))"
  proof (cases "k = 15")
    case False
    then have "k = n" unfolding k_def by simp
    then have "drop k xs = dropWhile is_digit xs" by (simp only: dw)
    moreover have "dropWhile is_digit xs = [] \<or> \<not> is_digit (hd (dropWhile is_digit xs))"
      using hd_dropWhile [of is_digit xs] by blast
    ultimately show ?thesis by simp
  qed simp
  have "xs = take k xs @ drop k xs" by simp
  with d l k10 kn(2) e show ?thesis by metis
qed

lemma digit_run_split:
  assumes "list_all is_digit ds" and "10 \<le> length ds"
  shows "\<exists>ds' rest'. ds @ rest = ds' @ rest' \<and> list_all is_digit ds' \<and> 10 \<le> length ds' \<and>
           length ds' \<le> 15 \<and> (length ds' = 15 \<or> rest' = [] \<or> \<not> is_digit (hd rest'))"
proof -
  from assms(1) have "takeWhile is_digit (ds @ rest) = ds @ takeWhile is_digit rest"
    by (intro takeWhile_append2) (simp add: list_all_iff)
  with assms(2) have "10 \<le> length (takeWhile is_digit (ds @ rest))" by simp
  then show ?thesis by (rule digit_run_prefix)
qed

lemma label_matches_iff:
  "(re_search ruc_nit_1 s True \<noteq> None) =
     (\<exists>pre lab seps ds rest. s = pre @ lab @ seps @ ds @ rest \<and>
        lab \<in> lang True ruc_nit_label \<and>
        list_all (in_class True [CChar CHR '':'', CSpace]) seps \<and>
        list_all is_digit ds \<and> 10 \<le> length ds \<and> length ds \<le> 15)"
proof
  assume "re_search ruc_nit_1 s True \<noteq> None"
  then obtain m where m: "re_search ruc_nit_1 s True = Some m" by blast
  from re_search_lang [OF m] obtain pre w where w: "s = pre @ w @ fst m"
    "w \<in> lang True ruc_nit_1" by blast
  from w(2) have "\<exists>lab v. w = lab @ v \<and> lab \<in> lang True ruc_nit_label \<and>
      v \<in> lang True (Seq sep (Grp (Rep 10 (Some 15) digit)))"
    by (simp only: ruc_nit_1_label lang.simps(3) mem_Collect_eq)
  then obtain lab v where lab: "w = lab @ v" "lab \<in> lang True ruc_nit_label"
    and v: "v \<in> lang True (Seq sep (Grp (Rep 10 (Some 15) digit)))" by blast
  from v have "\<exists>seps ds. v = seps @ ds \<and> seps \<in> lang True sep \<and>
      ds \<in> lang True (Rep 10 (Some 15) digit)"
    by (simp only: lang.simps(3,6) mem_Collect_eq)
  then obtain seps ds where sd: "v = seps @ ds" "seps \<in> lang True sep"
    "ds \<in> lang True (Rep 10 (Some 15) digit)" by blast
  from sd(2) have "seps \<in> lang True (Rep 0 None (Cls [CChar CHR '':'', CSpace]))"
    by (simp only: sep_def)
  from lang_rep_cls [OF this]
  have "list_all (in_class True [CChar CHR '':'', CSpace]) seps" by (simp add: list_all_iff)
  moreover from digits_lang [OF sd(3)]
  have "list_all is_digit ds" "10 \<le> length ds" "length ds \<le> 15" by simp_all
  moreover from w(1) lab(1) sd(1) have "s = pre @ lab @ seps @ ds @ fst m" by simp
  ultimately show "\<exists>pre lab seps ds rest. s = pre @ lab @ seps @ ds @ rest \<and>
        lab \<in> lang True ruc_nit_label \<and>
        list_all (in_class True [CChar CHR '':'', CSpace]) seps \<and>
        list_all is_digit ds \<and> 10 \<le> length ds \<and> length ds \<le> 15"
    using lab(2) by blast
next
  assume "\<exists>pre lab seps ds rest. s = pre @ lab @ seps @ ds @ rest \<and>
        lab \<in> lang True ruc_nit_label \<and>
        list_all (in_class True [CChar CHR '':'', CSpace]) seps \<and>
        list_all is_digit ds \<and> 10 \<le> length ds \<and> length ds \<le> 15"
  then obtain pre lab seps ds rest where s: "s = pre @ lab @ seps @ ds @ rest"
    and lab: "lab \<in> lang True ruc_nit_label"
    and seps: "list_all (in_class True [CChar CHR '':'', CSpace]) seps"
    and ds: "list_all is_digit ds" "10 \<le> length ds" by blast
  from digit_run_split [OF ds, of rest] obtain ds' rest' where
    r: "ds @ rest = ds' @ rest'" "list_all is_digit ds'" "10 \<le> length ds'" "length ds' \<le> 15"
      "length ds' = 15 \<or> rest' = [] \<or> \<not> is_digit (hd rest')" by blast
  from ruc_nit_1_first [OF lab seps r(2-5)] obtain others where
    "ms True ruc_nit_1 (lab @ seps @ ds' @ rest', None) = (rest', Some ds') # others" ..
  then have "ms True ruc_nit_1 (lab @ seps @ ds @ rest, None) \<noteq> []" by (simp add: r(1))
  from re_search_found [OF this, of pre] s show "re_search ruc_nit_1 s True \<noteq> None" by simp
qed

lemma rep_cls_word:
  assumes "\<forall>c \<in> set w. in_class ic cs c"
  shows "w \<in> lang ic (Rep 0 None (Cls cs))"
proof -
  have "concat (map (\<lambda>c. [c]) w) = w" by (induction w) simp_all
  moreover from assms have "set (map (\<lambda>c. [c]) w) \<subseteq> lang ic (Cls cs)" by auto
  ultimately have "\<exists>ws. w = concat ws \<and> set ws \<subseteq> lang ic (Cls cs)" by metis
  then show ?thesis by simp
qed

lemma tax_id_word: "''Tax ID'' \<in> lang True ruc_nit_label"
proof -
  have a: "''Tax'' \<in> lang True (Lit ''tax'')"
    by (simp add: char_eq_def lower_def is_upper_def)
  have "\<forall>c \<in> set '' ''. in_class True [CSpace] c" by (simp add: in_class_space is_space_def)
  then have b: "'' '' \<in> lang True (Rep 0 None (Cls [CSpace]))" by (rule rep_cls_word)
  have c: "''ID'' \<in> lang True (Lit ''id'')"
    by (simp add: char_eq_def lower_def is_upper_def)
  from b c have "'' '' @ ''ID'' \<in> lang True (Seq (Rep 0 None (Cls [CSpace])) (Lit ''id''))"
    by (simp only: lang.simps(3) mem_Collect_eq) blast
  with a have "''Tax'' @ '' '' @ ''ID'' \<in>
      lang True (Seq (Lit ''tax'') (Seq (Rep 0 None (Cls [CSpace])) (Lit ''id'')))"
    by (simp only: lang.simps(3) [of True "Lit ''tax''"] mem_Collect_eq) blast
  then show ?thesis by (simp only: ruc_nit_label_def lang.simps(4) Un_iff append.simps) simp
qed

lemma tax_id_sample:
  "list_all (\<lambda>k. ms True ruc_nit_1 (drop k ''ACME SAC\<newline>Tax ID: 1234567890123\<newline>'', None) = [])
     [0 ..< length ''ACME SAC\<newline>'']"
  "list_all (in_class True [CChar CHR '':'', CSpace]) '': ''"
  "list_all is_digit ''1234567890123''"
  "\<not> is_digit (hd ''\<newline>'')"
  by code_simp+

lemma bare_sample:
  "re_search ruc_nit_1 ''Cod 123\<newline>Ref 20123456789\<newline>'' True = None"
  "list_all is_digit ''20123456789''"
  "list_all (\<lambda>k. \<not> digits_at 11 (drop k ''Cod 123\<newline>Ref 20123456789\<newline>''))
     [0 ..< length ''Cod 123\<newline>Ref '']"
  by code_simp+

text \<open>
  Claim C6. The tax id is the trimmed group 1 of the label pattern when that pattern matches
  the text, else of the fallback when the fallback matches, else empty. The label pattern
  matches a label word (\<^verbatim>\<open>ruc\<close>, \<^verbatim>\<open>nit\<close> or \<^verbatim>\<open>tax\<close>, whitespace, \<^verbatim>\<open>id\<close>, in any case) followed by
  separators and 10 to 15 digits: every match is such a word with the digits in group 1, the
  pattern matches exactly when the text has such a word, and where the first match stands
  in the text, the tax id is its run of digits. The fallback matches exactly when the text
  has 11 digits in a row, anywhere; when the label pattern matches nowhere, the tax id is
  the first 11 digits in a row of the text.
\<close>

theorem tax_id_label_then_fallback:
  assumes "wf_ocr ocr_result" and "full_text = join_lines (ocr_lines ocr_result)"
  shows "invoice_field ''ruc_nit'' (extract_invoice_data ocr_result) =
     Some (PStr
       (case re_search ruc_nit_1 full_text True of
          Some m \<Rightarrow> (case group1 m of None \<Rightarrow> [] | Some g \<Rightarrow> strip g)
        | None \<Rightarrow>
            (case re_search ruc_nit_2 full_text True of
               Some m \<Rightarrow> (case group1 m of None \<Rightarrow> [] | Some g \<Rightarrow> strip g)
             | None \<Rightarrow> []))) \<and>
   (\<forall>m. re_search ruc_nit_1 full_text True = Some m \<longrightarrow>
      (\<exists>g. group1 m = Some g \<and> list_all is_digit g \<and> 10 \<le> length g \<and> length g \<le> 15) \<and>
      (\<exists>pre w. full_text = pre @ w @ fst m \<and> w \<in> lang True ruc_nit_1)) \<and>
   (\<forall>m. re_search ruc_nit_2 full_text True = Some m \<longrightarrow>
      (\<exists>g. group1 m = Some g \<and> list_all is_digit g \<and> length g = 11)) \<and>
   ((re_search ruc_nit_1 full_text True \<noteq> None) =
      (\<exists>pre lab seps ds rest. full_text = pre @ lab @ seps @ ds @ rest \<and>
         lab \<in> lang True ruc_nit_label \<and>
         list_all (in_class True [CChar CHR '':'', CSpace]) seps \<and>
         list_all is_digit ds \<and> 10 \<le> length ds \<and> length ds \<le> 15)) \<and>
   (\<forall>pre lab seps ds rest.
      full_text = pre @ lab @ seps @ ds @ rest \<and>
      lab \<in> lang True ruc_nit_label \<and>
      list_all (in_class True [CChar CHR '':'', CSpace]) seps \<and>
      list_all is_digit ds \<and> 10 \<le> length ds \<and> length ds \<le> 15 \<and>
      (length ds = 15 \<or> rest = [] \<or> \<not> is_digit (hd rest)) \<and>
      list_all (\<lambda>k. ms True ruc_nit_1 (drop k full_text, None) = []) [0 ..< length pre] \<longrightarrow>
      invoice_field ''ruc_nit'' (extract_invoice_data ocr_result) = Some (PStr ds)) \<and>
   ((re_search ruc_nit_2 full_text True \<noteq> None) =
      (\<exists>pre ds rest. full_text = pre @ ds @ rest \<and> length ds = 11 \<and> list_all is_digit ds)) \<and>
   (\<forall>pre ds rest.
      re_search ruc_nit_1 full_text True = None \<and>
      full_text = pre @ ds @ rest \<and> length ds = 11 \<and> list_all is_digit ds \<and>
      list_all (\<lambda>k. \<not> digits_at 11 (drop k full_text)) [0 ..< length pre] \<longrightarrow>
      invoice_field ''ruc_nit'' (extract_invoice_data ocr_result) = Some (PStr ds))"
proof -
  have fm: "invoice_field ''ruc_nit'' (extract_invoice_data ocr_result) =
     Some (PStr
       (case re_search ruc_nit_1 full_text True of
          Some m \<Rightarrow> (case group1 m of None \<Rightarrow> [] | Some g \<Rightarrow> strip g)
        | None \<Rightarrow>
            (case re_search ruc_nit_2 full_text True of
               Some m \<Rightarrow> (case group1 m of None \<Rightarrow> [] | Some g \<Rightarrow> strip g)
             | None \<Rightarrow> [])))"
    by (simp only: invoice_field_extract [OF assms] map_of_record_ruc first_match_value_Cons
        first_match_value_Nil)
  have l: "(\<exists>g. group1 m = Some g \<and> list_all is_digit g \<and> 10 \<le> length g \<and> length g \<le> 15) \<and>
      (\<exists>pre w. full_text = pre @ w @ fst m \<and> w \<in> lang True ruc_nit_1)"
    if m: "re_search ruc_nit_1 full_text True = Some m" for m
  proof
    from re_search_group_lang [OF captures_patterns(6) m]
    obtain g where g: "g \<in> lang True (Rep 10 (Some 15) digit)" "group1 m = Some g"
      by (auto simp: ruc_nit_1_def)
    from digits_lang [OF g(1)] g(2)
    show "\<exists>g. group1 m = Some g \<and> list_all is_digit g \<and> 10 \<le> length g \<and> length g \<le> 15"
      by simp
    from re_search_lang [OF m]
    show "\<exists>pre w. full_text = pre @ w @ fst m \<and> w \<in> lang True ruc_nit_1" .
  qed
  have f: "\<exists>g. group1 m = Some g \<and> list_all is_digit g \<and> length g = 11"
    if m: "re_search ruc_nit_2 full_text True = Some m" for m
  proof -
    from re_search_group_lang [OF captures_patterns(7) m]
    obtain g where g: "g \<in> lang True (Rep 11 (Some 11) digit)" "group1 m = Some g"
      by (auto simp: ruc_nit_2_def)
    from digits_lang [OF g(1)] g(2) show ?thesis by simp
  qed
  have lv: "invoice_field ''ruc_nit'' (extract_invoice_data ocr_result) = Some (PStr ds)"
    if h: "full_text = pre @ lab @ seps @ ds @ rest \<and>
      lab \<in> lang True ruc_nit_label \<and>
      list_all (in_class True [CChar CHR '':'', CSpace]) seps \<and>
      list_all is_digit ds \<and> 10 \<le> length ds \<and> length ds \<le> 15 \<and>
      (length ds = 15 \<or> rest = [] \<or> \<not> is_digit (hd rest)) \<and>
      list_all (\<lambda>k. ms True ruc_nit_1 (drop k full_text, None) = []) [0 ..< length pre]"
    for pre lab seps ds rest
  proof -
    from h have "re_search ruc_nit_1 full_text True = Some (rest, Some ds)"
      by (elim conjE) (rule label_value [of full_text pre lab seps ds rest]; assumption)
    moreover from h have "strip ds = ds" by (simp add: digits_strip)
    ultimately show ?thesis by (simp add: fm group1_def)
  qed
  have fv: "invoice_field ''ruc_nit'' (extract_invoice_data ocr_result) = Some (PStr ds)"
    if h: "re_search ruc_nit_1 full_text True = None \<and>
      full_text = pre @ ds @ rest \<and> length ds = 11 \<and> list_all is_digit ds \<and>
      list_all (\<lambda>k. \<not> digits_at 11 (drop k full_text)) [0 ..< length pre]"
    for pre ds rest
  proof -
    from h have "re_search ruc_nit_2 full_text True = Some (rest, Some ds)"
      by (elim conjE) (rule fallback_value [of full_text pre ds rest]; assumption)
    moreover from h have "strip ds = ds" by (simp add: digits_strip)
    moreover from h have "re_search ruc_nit_1 full_text True = None" by (rule conjunct1)
    ultimately show ?thesis by (simp add: fm group1_def)
  qed
  show ?thesis
    apply (intro conjI allI impI)
    apply (rule fm)
    apply (erule l [THEN conjunct1])
    apply (erule l [THEN conjunct2])
    apply (erule f)
    apply (rule label_matches_iff)
    apply (erule lv)
    apply (rule fallback_matches_iff)
    apply (erule fv)
    done
qed

text \<open>
  The theorem at a text with a label (\<^verbatim>\<open>Tax ID: 1234567890123\<close>, whose 13 digits the label
  pattern takes although the fallback would match their first 11), and at a text without
  a label, where the fallback takes the 11 digits of \<^verbatim>\<open>20123456789\<close>.
\<close>

theorem tax_id_label_then_fallback_witness:
  "wf_ocr (ocr_of [[''ACME SAC'', ''Tax ID: 1234567890123'']]) \<and>
   ''ACME SAC\<newline>Tax ID: 1234567890123\<newline>'' =
      join_lines (ocr_lines (ocr_of [[''ACME SAC'', ''Tax ID: 1234567890123'']])) \<and>
   ''ACME SAC\<newline>Tax ID: 1234567890123\<newline>'' =
      ''ACME SAC\<newline>'' @ ''Tax ID'' @ '': '' @ ''1234567890123'' @ ''\<newline>'' \<and>
   ''Tax ID'' \<in> lang True ruc_nit_label \<and>
   list_all (in_class True [CChar CHR '':'', CSpace]) '': '' \<and>
   list_all is_digit ''1234567890123'' \<and>
   10 \<le> length ''1234567890123'' \<and> length ''1234567890123'' \<le> 15 \<and>
   \<not> is_digit (hd ''\<newline>'') \<and>
   list_all (\<lambda>k. ms True ruc_nit_1 (drop k ''ACME SAC\<newline>Tax ID: 1234567890123\<newline>'', None) = [])
     [0 ..< length ''ACME SAC\<newline>''] \<and>
   re_search ruc_nit_1 ''ACME SAC\<newline>Tax ID: 1234567890123\<newline>'' True \<noteq> None \<and>
   invoice_field ''ruc_nit''
      (extract_invoice_data (ocr_of [[''ACME SAC'', ''Tax ID: 1234567890123'']])) =
      Some (PStr ''1234567890123'') \<and>
   wf_ocr (ocr_of [[''Cod 123'', ''Ref 20123456789'']]) \<and>
   ''Cod 123\<newline>Ref 20123456789\<newline>'' =
      join_lines (ocr_lines (ocr_of [[''Cod 123'', ''Ref 20123456789'']])) \<and>
   re_search ruc_nit_1 ''Cod 123\<newline>Ref 20123456789\<newline>'' True = None \<and>
   ''Cod 123\<newline>Ref 20123456789\<newline>'' = ''Cod 123\<newline>Ref '' @ ''20123456789'' @ ''\<newline>'' \<and>
   length ''20123456789'' = 11 \<and> list_all is_digit ''20123456789'' \<and>
   list_all (\<lambda>k. \<not> digits_at 11 (drop k ''Cod 123\<newline>Ref 20123456789\<newline>''))
     [0 ..< length ''Cod 123\<newline>Ref ''] \<and>
   re_search ruc_nit_2 ''Cod 123\<newline>Ref 20123456789\<newline>'' True \<noteq> None \<and>
   invoice_field ''ruc_nit'' (extract_invoice_data (ocr_of [[''Cod 123'', ''Ref 20123456789'']])) =
      Some (PStr ''20123456789'')"
proof -
  let ?a = "ocr_of [[''ACME SAC'', ''Tax ID: 1234567890123'']]"
  let ?ta = "''ACME SAC\<newline>Tax ID: 1234567890123\<newline>''"
  let ?b = "ocr_of [[''Cod 123'', ''Ref 20123456789'']]"
  let ?tb = "''Cod 123\<newline>Ref 20123456789\<newline>''"
  have wa: "wf_ocr ?a" by (rule wf_ocr_of)
  have ta: "?ta = join_lines (ocr_lines ?a)" by (simp add: ocr_lines_ocr_of)
  have ea: "?ta = ''ACME SAC\<newline>'' @ ''Tax ID'' @ '': '' @ ''1234567890123'' @ ''\<newline>''" by simp
  have na: "10 \<le> length ''1234567890123''" "length ''1234567890123'' \<le> 15" by simp_all
  have wb: "wf_ocr ?b" by (rule wf_ocr_of)
  have tb: "?tb = join_lines (ocr_lines ?b)" by (simp add: ocr_lines_ocr_of)
  have eb: "?tb = ''Cod 123\<newline>Ref '' @ ''20123456789'' @ ''\<newline>''" by simp
  have nb: "length ''20123456789'' = 11" by simp
  note A = tax_id_label_then_fallback [OF wa ta]
  note B = tax_id_label_then_fallback [OF wb tb]
  from A have "\<forall>pre lab seps ds rest.
      ?ta = pre @ lab @ seps @ ds @ rest \<and>
      lab \<in> lang True ruc_nit_label \<and>
      list_all (in_class True [CChar CHR '':'', CSpace]) seps \<and>
      list_all is_digit ds \<and> 10 \<le> length ds \<and> length ds \<le> 15 \<and>
      (length ds = 15 \<or> rest = [] \<or> \<not> is_digit (hd rest)) \<and>
      list_all (\<lambda>k. ms True ruc_nit_1 (drop k ?ta, None) = []) [0 ..< length pre] \<longrightarrow>
      invoice_field ''ruc_nit'' (extract_invoice_data ?a) = Some (PStr ds)"
    by (elim conjE)
  from this [rule_format, of "''ACME SAC\<newline>''" "''Tax ID''" "'': ''" "''1234567890123''" "''\<newline>''"]
    ea tax_id_word tax_id_sample na
  have ra: "invoice_field ''ruc_nit'' (extract_invoice_data ?a) = Some (PStr ''1234567890123'')"
    by blast
  from A have "(re_search ruc_nit_1 ?ta True \<noteq> None) =
      (\<exists>pre lab seps ds rest. ?ta = pre @ lab @ seps @ ds @ rest \<and>
         lab \<in> lang True ruc_nit_label \<and>
         list_all (in_class True [CChar CHR '':'', CSpace]) seps \<and>
         list_all is_digit ds \<and> 10 \<le> length ds \<and> length ds \<le> 15)"
    by (elim conjE)
  moreover from ea tax_id_word tax_id_sample(2,3) na
  have "\<exists>pre lab seps ds rest. ?ta = pre @ lab @ seps @ ds @ rest \<and>
         lab \<in> lang True ruc_nit_label \<and>
         list_all (in_class True [CChar CHR '':'', CSpace]) seps \<and>
         list_all is_digit ds \<and> 10 \<le> length ds \<and> length ds \<le> 15"
    by blast
  ultimately have ma: "re_search ruc_nit_1 ?ta True \<noteq> None" by (rule iffD2)
  from B have "(re_search ruc_nit_2 ?tb True \<noteq> None) =
      (\<exists>pre ds rest. ?tb = pre @ ds @ rest \<and> length ds = 11 \<and> list_all is_digit ds)"
    by (elim conjE)
  moreover from eb nb bare_sample(2)
  have "\<exists>pre ds rest. ?tb = pre @ ds @ rest \<and> length ds = 11 \<and> list_all is_digit ds"
    by blast
  ultimately have mb: "re_search ruc_nit_2 ?tb True \<noteq> None" by (rule iffD2)
  from B have "\<forall>pre ds rest.
      re_search ruc_nit_1 ?tb True = None \<and>
      ?tb = pre @ ds @ rest \<and> length ds = 11 \<and> list_all is_digit ds \<and>
      list_all (\<lambda>k. \<not> digits_at 11 (drop k ?tb)) [0 ..< length pre] \<longrightarrow>
      invoice_field ''ruc_nit'' (extract_invoice_data ?b) = Some (PStr ds)"
    by (elim conjE)
  from this [rule_format, of "''Cod 123\<newline>Ref ''" "''20123456789''" "''\<newline>''"]
    bare_sample eb nb
  have rb: "invoice_field ''ruc_nit'' (extract_invoice_data ?b) = Some (PStr ''20123456789'')"
    by blast
  show ?thesis
    by (intro conjI wa ta ea tax_id_word tax_id_sample(2) tax_id_sample(3) na tax_id_sample(4)
        tax_id_sample(1) ma ra wb tb bare_sample(1) eb nb bare_sample(2) bare_sample(3) mb rb)
qed

subsection \<open>Claims about the total\<close>










end
